theory Spec2Isabelle
  imports Main "HOL-Library.Product_Lexorder" "HOL-Library.Multiset" "HOL-Library.Sublist"
    "HOL-Library.Log_Nat"
begin

section \<open>Rent ledger: the aging engine\<close>

text \<open>
  The embedding follows \<^verbatim>\<open>rent_ledger.py\<close>. Amounts are Python integers (cents), hence
  \<^typ>\<open>int\<close>. A \<^verbatim>\<open>datetime.date\<close> is the triple (year, month, day); Python compares dates
  in exactly the lexicographic order that the product type carries here.
\<close>

type_synonym date = "nat \<times> nat \<times> nat"

subsection \<open>Charges (class \<^verbatim>\<open>Charge\<close>)\<close>

record Charge =
  tenant_id :: string
  kind :: string
  due_date :: date
  amount_cents :: int
  open_cents :: int

text \<open>\<^verbatim>\<open>Charge.__init__\<close>: a new charge is open with its whole amount.\<close>

definition Charge_init :: "string \<Rightarrow> string \<Rightarrow> date \<Rightarrow> int \<Rightarrow> Charge" where
  "Charge_init tid k d amt =
     \<lparr>tenant_id = tid, kind = k, due_date = d, amount_cents = amt, open_cents = amt\<rparr>"

subsection \<open>\<^verbatim>\<open>apply_payments_fifo\<close>\<close>

text \<open>
  The inner loop over the charges for one payment. \<^verbatim>\<open>break\<close> leaves the rest of the list
  as it is, \<^verbatim>\<open>continue\<close> keeps the charge and goes on with the same remaining amount. What is
  left of \<open>remaining\<close> after the last charge is dropped with the loop variable.
\<close>

fun walk :: "int \<Rightarrow> Charge list \<Rightarrow> Charge list" where
  "walk remaining [] = []"
| "walk remaining (c # cs) =
     (if remaining \<le> 0 then c # cs
      else if open_cents c \<le> 0 then c # walk remaining cs
      else let take = min (open_cents c) remaining
           in c\<lparr>open_cents := open_cents c - take\<rparr> # walk (remaining - take) cs)"

text \<open>The three ranked priority modes of the nested \<^verbatim>\<open>sort_key\<close>.\<close>

definition rank :: "string \<Rightarrow> string \<Rightarrow> string \<Rightarrow> nat" where
  "rank first second k = (if k = first then 0 else if k = second then 1 else 2)"

text \<open>
  \<^verbatim>\<open>charges.sort(key=sort_key)\<close> is a stable sort, as \<^const>\<open>sort_key\<close> is. The key is the
  pair (rank, due date) for the ranked modes and the due date alone for every other mode
  string.
\<close>

definition sort_charges :: "string \<Rightarrow> Charge list \<Rightarrow> Charge list" where
  "sort_charges priority cs =
     (if priority = ''rent_first'' then
        sort_key (\<lambda>c. (rank ''rent'' ''nk'' (kind c), due_date c)) cs
      else if priority = ''nk_first'' then
        sort_key (\<lambda>c. (rank ''nk'' ''rent'' (kind c), due_date c)) cs
      else if priority = ''nka_first'' then
        sort_key (\<lambda>c. (rank ''nka'' ''rent'' (kind c), due_date c)) cs
      else sort_key due_date cs)"

definition eligible_charges :: "Charge list \<Rightarrow> date \<Rightarrow> string \<Rightarrow> Charge list" where
  "eligible_charges charges asof priority =
     sort_charges priority [c \<leftarrow> charges. due_date c \<le> asof \<and> 0 < open_cents c]"

definition eligible_payments :: "(date \<times> int) list \<Rightarrow> date \<Rightarrow> (date \<times> int) list" where
  "eligible_payments payments asof = [(d, amt) \<leftarrow> payments. d \<le> asof]"

text \<open>
  The outer loop \<^verbatim>\<open>for _, amt in payments\<close>: the charges after each payment, in the order
  in which the loop takes the payments.
\<close>

fun pay_states :: "Charge list \<Rightarrow> (date \<times> int) list \<Rightarrow> Charge list list" where
  "pay_states cs [] = []"
| "pay_states cs ((d, amt) # ps) = walk amt cs # pay_states (walk amt cs) ps"

definition apply_payments_fifo ::
  "Charge list \<Rightarrow> (date \<times> int) list \<Rightarrow> date \<Rightarrow> string \<Rightarrow> Charge list" where
  "apply_payments_fifo charges payments asof priority =
     foldl (\<lambda>cs (d, amt). walk amt cs) (eligible_charges charges asof priority)
       (eligible_payments payments asof)"

text \<open>
  The states the list of charges goes through during one call: the sorted eligible charges,
  then the list after each payment of the loop.
\<close>

definition fifo_states ::
  "Charge list \<Rightarrow> (date \<times> int) list \<Rightarrow> date \<Rightarrow> string \<Rightarrow> Charge list list" where
  "fifo_states charges payments asof priority =
     eligible_charges charges asof priority
       # pay_states (eligible_charges charges asof priority) (eligible_payments payments asof)"

subsection \<open>\<^verbatim>\<open>bucket_for\<close>\<close>

definition bucket_for :: "int \<Rightarrow> string" where
  "bucket_for days_overdue =
     (if days_overdue \<le> 30 then ''0-30''
      else if days_overdue \<le> 60 then ''31-60''
      else if days_overdue \<le> 90 then ''61-90''
      else ''90+'')"

section \<open>Python floats\<close>

text \<open>
  A Python \<^verbatim>\<open>float\<close> is an IEEE 754 binary64 value: a rational with a 53 bit mantissa, an
  infinity or a NaN. The sign of zero is not kept: no operation used here (addition,
  multiplication, division by 100, comparison, \<^verbatim>\<open>round\<close>) can tell the two zeros apart in
  its integer or boolean result.
\<close>

datatype pyfloat = Fin rat | PInf | NInf | NaN

definition pow2 :: "int \<Rightarrow> rat" where
  "pow2 e = (if 0 \<le> e then 2 ^ nat e else 1 / 2 ^ nat (- e))"

text \<open>Round to the nearest integer, ties to the even one.\<close>

definition round_half_even :: "rat \<Rightarrow> int" where
  "round_half_even q =
     (let f = \<lfloor>q\<rfloor>; d = q - of_int f
      in if d < 1 / 2 then f else if 1 / 2 < d then f + 1 else if even f then f else f + 1)"

text \<open>The binary exponent of a rational that is not zero: \<open>2 ^ e \<le> \<bar>x\<bar> < 2 ^ (e + 1)\<close>.\<close>

definition ilog2 :: "rat \<Rightarrow> int" where
  "ilog2 x =
     (let (a, b) = quotient_of \<bar>x\<bar>;
          e = bitlen a - bitlen b
      in if pow2 e \<le> \<bar>x\<bar> then e else e - 1)"

text \<open>
  Rounding a rational to binary64, to nearest and ties to even: the unit in the last place
  is \<open>2 ^ (e - 52)\<close>, with the exponent held at \<open>- 1022\<close> in the subnormal range; a result
  beyond the largest finite value \<open>(2 ^ 53 - 1) * 2 ^ 971\<close> is an infinity.
\<close>

definition fl_round :: "rat \<Rightarrow> pyfloat" where
  "fl_round x =
     (if x = 0 then Fin 0
      else let e = max (ilog2 x) (- 1022);
               u = pow2 (e - 52);
               n = round_half_even (x / u)
           in if 1023 < e \<or> (e = 1023 \<and> \<bar>n\<bar> = 2 ^ 53)
              then (if 0 < x then PInf else NInf)
              else Fin (of_int n * u))"

fun fl_add :: "pyfloat \<Rightarrow> pyfloat \<Rightarrow> pyfloat" where
  "fl_add (Fin x) (Fin y) = fl_round (x + y)"
| "fl_add NaN _ = NaN"
| "fl_add _ NaN = NaN"
| "fl_add PInf NInf = NaN"
| "fl_add NInf PInf = NaN"
| "fl_add PInf _ = PInf"
| "fl_add _ PInf = PInf"
| "fl_add NInf _ = NInf"
| "fl_add _ NInf = NInf"

fun fl_neg :: "pyfloat \<Rightarrow> pyfloat" where
  "fl_neg (Fin x) = Fin (- x)"
| "fl_neg PInf = NInf"
| "fl_neg NInf = PInf"
| "fl_neg NaN = NaN"

fun fl_mul :: "pyfloat \<Rightarrow> pyfloat \<Rightarrow> pyfloat" where
  "fl_mul (Fin x) (Fin y) = fl_round (x * y)"
| "fl_mul NaN _ = NaN"
| "fl_mul _ NaN = NaN"
| "fl_mul (Fin x) i = (if x = 0 then NaN else if 0 < x then i else fl_neg i)"
| "fl_mul i (Fin y) = (if y = 0 then NaN else if 0 < y then i else fl_neg i)"
| "fl_mul PInf i = i"
| "fl_mul NInf i = fl_neg i"

text \<open>Division by the literal \<^verbatim>\<open>100.0\<close>.\<close>

fun fl_div100 :: "pyfloat \<Rightarrow> pyfloat" where
  "fl_div100 (Fin x) = fl_round (x / 100)"
| "fl_div100 i = i"

text \<open>The comparison \<^verbatim>\<open>a > b\<close>; every comparison with a NaN is false.\<close>

fun fl_gt :: "pyfloat \<Rightarrow> pyfloat \<Rightarrow> bool" where
  "fl_gt (Fin x) (Fin y) = (y < x)"
| "fl_gt NaN _ = False"
| "fl_gt _ NaN = False"
| "fl_gt PInf i = (i \<noteq> PInf)"
| "fl_gt NInf _ = False"
| "fl_gt (Fin x) i = (i = NInf)"

datatype py_exception = ValueError | OverflowError

text \<open>
  \<^verbatim>\<open>round(x)\<close> of a float gives an \<^verbatim>\<open>int\<close>, ties to even; it raises \<^verbatim>\<open>ValueError\<close> on a NaN
  and \<^verbatim>\<open>OverflowError\<close> on an infinity.
\<close>

fun py_round :: "pyfloat \<Rightarrow> py_exception + int" where
  "py_round (Fin x) = Inr (round_half_even x)"
| "py_round NaN = Inl ValueError"
| "py_round _ = Inl OverflowError"

text \<open>The conversion of the \<^verbatim>\<open>int\<close> operand in \<^verbatim>\<open>bank_amt * pct\<close>.\<close>

definition float_of_int :: "int \<Rightarrow> py_exception + pyfloat" where
  "float_of_int n =
     (case fl_round (of_int n) of Fin x \<Rightarrow> Inr (Fin x) | _ \<Rightarrow> Inl OverflowError)"

text \<open>\<^verbatim>\<open>int(round(bank_amt * pct / 100.0))\<close>\<close>

definition percent_cents :: "int \<Rightarrow> pyfloat \<Rightarrow> py_exception + int" where
  "percent_cents bank_amt pct =
     (case float_of_int bank_amt of
        Inl x \<Rightarrow> Inl x
      | Inr a \<Rightarrow> py_round (fl_div100 (fl_mul a pct)))"

text \<open>The literal \<^verbatim>\<open>100.000001\<close>.\<close>

definition percent_limit :: pyfloat where
  "percent_limit = fl_round (100000001 / 1000000)"

section \<open>The store\<close>

text \<open>
  The tables of the SQLite database that the rule engine and the aging read and write, each a
  list of rows. \<^verbatim>\<open>NULL\<close> is \<^const>\<open>None\<close> in the columns that allow it. A description, a
  name or a note is a \<^typ>\<open>string\<close>, a list of 8-bit characters.

  An SQLite integer has 64 bits. The rows of a store and the ids handed to the functions are
  taken to hold such integers, the sum of the view below to stay among them (\<^verbatim>\<open>SUM\<close> fails
  beyond), and the ids of a table not to run out. An amount that the program computes is
  compared with the range where the program binds it to a statement.
\<close>

definition sqlite_integer :: "int \<Rightarrow> bool" where
  "sqlite_integer n = (- (2 ^ 63) \<le> n \<and> n < 2 ^ 63)"

record bank_row =
  b_id :: int
  b_date :: date
  b_amt :: int
  b_desc :: "string option"

record rule =
  r_id :: int
  r_name :: string
  r_like :: "string option"
  r_min_c :: "int option"
  r_max_c :: "int option"
  r_sign :: string
  r_priority :: int
  r_active :: int
  r_regex :: "string option"

record rule_part =
  p_id :: int
  p_rule_id :: int
  p_account :: string
  p_tenant_id :: "string option"
  p_kind :: string
  val_c :: "int option"
  val_p :: "pyfloat option"
  note_t :: "string option"

record split_row =
  s_id :: int
  s_bank_id :: int
  s_account :: string
  s_tenant_id :: "string option"
  s_amount_cents :: int
  s_note :: "string option"

record manual_charge =
  m_id :: int
  m_tenant_id :: string
  m_kind :: string
  m_due_date :: date
  m_amount_cents :: int
  m_issued_date :: "date option"
  m_note :: "string option"

text \<open>
  With the tables, the entry of \<^verbatim>\<open>sqlite_sequence\<close> for the table of splits: the largest id
  that the table has had, 0 as long as there is no entry.
\<close>

record store =
  bank :: "bank_row list"
  rules :: "rule list"
  rule_parts :: "rule_part list"
  splits :: "split_row list"
  splits_seq :: int
  manual_charges :: "manual_charge list"

text \<open>The column \<^verbatim>\<open>split_sum\<close> of the view \<^verbatim>\<open>v_bank_with_sum\<close>, which has a row per bank row.\<close>

definition splits_of :: "store \<Rightarrow> int \<Rightarrow> split_row list" where
  "splits_of cx bid = [s \<leftarrow> splits cx. s_bank_id s = bid]"

definition split_sum :: "store \<Rightarrow> int \<Rightarrow> int" where
  "split_sum cx bid = sum_list (map s_amount_cents (splits_of cx bid))"

definition view_split_sum :: "store \<Rightarrow> int \<Rightarrow> int option" where
  "view_split_sum cx bid =
     (case find (\<lambda>b. b_id b = bid) (bank cx) of
        None \<Rightarrow> None
      | Some b \<Rightarrow> Some (split_sum cx bid))"

text \<open>
  \<^verbatim>\<open>AUTOINCREMENT\<close>: a new row gets the id after the largest id of the table, 1 in an empty
  table, and at least the id after the one of \<^verbatim>\<open>sqlite_sequence\<close>, so that the id of a deleted
  row is not given again.
\<close>

definition next_split_id :: "store \<Rightarrow> int" where
  "next_split_id cx =
     (let ids = map s_id (splits cx);
          v = (if ids = [] then 1 else fold max (tl ids) (hd ids) + 1)
      in max v (splits_seq cx + 1))"

section \<open>Rules\<close>

definition sign_of :: "int \<Rightarrow> string" where
  "sign_of cents = (if 0 < cents then ''in'' else if cents < 0 then ''out'' else ''any'')"

text \<open>The white space that \<^verbatim>\<open>str.strip()\<close> removes, among the 8-bit characters.\<close>

definition py_isspace :: "char \<Rightarrow> bool" where
  "py_isspace c =
     (let n = (of_char c :: nat)
      in (9 \<le> n \<and> n \<le> 13) \<or> (28 \<le> n \<and> n \<le> 32) \<or> n = 133 \<or> n = 160)"

definition strip_by :: "(char \<Rightarrow> bool) \<Rightarrow> string \<Rightarrow> string" where
  "strip_by P s = rev (dropWhile P (rev (dropWhile P s)))"

text \<open>The \<^verbatim>\<open>if like:\<close> block of \<^verbatim>\<open>match_rule\<close>: true when it returns \<^verbatim>\<open>False\<close>.\<close>

definition like_fails :: "string option \<Rightarrow> string \<Rightarrow> bool" where
  "like_fails like desc =
     (case like of
        None \<Rightarrow> False
      | Some l \<Rightarrow>
          l \<noteq> [] \<and>
          (let like_str = strip_by py_isspace l
           in like_str \<noteq> [] \<and> \<not> sublist (strip_by (\<lambda>c. c = CHR ''%'') like_str) desc))"

text \<open>
  The \<^verbatim>\<open>if regex:\<close> block. The regular expression engine is not part of the program:
  \<open>re_search re desc\<close> stands for \<^verbatim>\<open>re.search(re, desc, flags=re.IGNORECASE)\<close>, with
  \<^const>\<open>None\<close> when it raises \<^verbatim>\<open>re.error\<close> and otherwise whether it found a match.
\<close>

definition regex_fails ::
  "(string \<Rightarrow> string \<Rightarrow> bool option) \<Rightarrow> string option \<Rightarrow> string \<Rightarrow> bool" where
  "regex_fails re_search regex desc =
     (case regex of
        None \<Rightarrow> False
      | Some re \<Rightarrow>
          re \<noteq> [] \<and>
          (case re_search re desc of None \<Rightarrow> True | Some found \<Rightarrow> \<not> found))"

definition match_rule ::
  "(string \<Rightarrow> string \<Rightarrow> bool option) \<Rightarrow> rule \<Rightarrow> bank_row \<Rightarrow> bool" where
  "match_rule re_search rule bank_row =
     (let desc = (case b_desc bank_row of None \<Rightarrow> [] | Some d \<Rightarrow> d)
      in if r_active rule = 0 then False
         else if like_fails (r_like rule) desc then False
         else if regex_fails re_search (r_regex rule) desc then False
         else if (case r_min_c rule of None \<Rightarrow> False | Some m \<Rightarrow> b_amt bank_row < m)
           then False
         else if (case r_max_c rule of None \<Rightarrow> False | Some m \<Rightarrow> m < b_amt bank_row)
           then False
         else if r_sign rule \<noteq> ''any'' \<and> sign_of (b_amt bank_row) \<noteq> r_sign rule then False
         else True)"

subsection \<open>\<^verbatim>\<open>apply_rule_to_bank\<close>\<close>

text \<open>
  The function returns \<^verbatim>\<open>(False, message)\<close> on a rejection, one constructor per message
  here, and \<^verbatim>\<open>(True, message)\<close> with the number of splits on success. \<^verbatim>\<open>round\<close> and an
  \<^verbatim>\<open>INSERT\<close> can raise inside it, which is the third outcome. With each outcome comes the
  store as the connection has it when the function is left.
\<close>

datatype alloc_error =
    BankNotFound | RuleNotFound | RuleNoMatch | NoParts | FixedNoValue | PercentNoValue
  | PercentOverflow pyfloat | MultipleRemainder | BalanceMismatch int int

datatype 'a result = Done 'a | Reject alloc_error | Raise py_exception

text \<open>An element of \<^verbatim>\<open>splits_to_insert\<close>: account, tenant, amount, note template.\<close>

type_synonym pending = "string \<times> string option \<times> int \<times> string option"

definition pending_amt :: "pending \<Rightarrow> int" where
  "pending_amt s = (case s of (account, tenant, amt, note) \<Rightarrow> amt)"

text \<open>The amount of a fixed part: \<^verbatim>\<open>amt = int(val_c)\<close>, negated when its sign is opposite to
  the sign of the bank amount.\<close>

definition fixed_amount :: "int \<Rightarrow> int \<Rightarrow> int" where
  "fixed_amount bank_amt v =
     (if (0 < bank_amt \<and> v < 0) \<or> (bank_amt < 0 \<and> 0 < v) then - v else v)"

text \<open>First loop over the parts: the fixed parts.\<close>

fun fixed_loop ::
  "int \<Rightarrow> rule_part list \<Rightarrow> int \<Rightarrow> pending list \<Rightarrow> alloc_error + int \<times> pending list" where
  "fixed_loop bank_amt [] remaining splits_to_insert = Inr (remaining, splits_to_insert)"
| "fixed_loop bank_amt (p # parts) remaining splits_to_insert =
     (if p_kind p = ''fixed'' then
        (case val_c p of
           None \<Rightarrow> Inl FixedNoValue
         | Some v \<Rightarrow>
             let amt = fixed_amount bank_amt v
             in fixed_loop bank_amt parts (remaining - amt)
                  (splits_to_insert @ [(p_account p, p_tenant_id p, amt, note_t p)]))
      else fixed_loop bank_amt parts remaining splits_to_insert)"

type_synonym percent_part = "string \<times> string option \<times> pyfloat \<times> string option"

text \<open>Second loop: the percent parts are collected and their values summed up.\<close>

fun percent_scan ::
  "rule_part list \<Rightarrow> pyfloat \<Rightarrow> percent_part list \<Rightarrow> alloc_error + pyfloat \<times> percent_part list"
  where
  "percent_scan [] percent_sum percent_parts = Inr (percent_sum, percent_parts)"
| "percent_scan (p # parts) percent_sum percent_parts =
     (if p_kind p = ''percent'' then
        (case val_p p of
           None \<Rightarrow> Inl PercentNoValue
         | Some v \<Rightarrow>
             percent_scan parts (fl_add percent_sum v)
               (percent_parts @ [(p_account p, p_tenant_id p, v, note_t p)]))
      else percent_scan parts percent_sum percent_parts)"

text \<open>Third loop: the amounts of the percent parts.\<close>

fun percent_loop ::
  "int \<Rightarrow> percent_part list \<Rightarrow> int \<Rightarrow> pending list \<Rightarrow> py_exception + int \<times> pending list" where
  "percent_loop bank_amt [] remaining splits_to_insert = Inr (remaining, splits_to_insert)"
| "percent_loop bank_amt ((account, tenant, pct, note) # percent_parts) remaining
       splits_to_insert =
     (case percent_cents bank_amt pct of
        Inl x \<Rightarrow> Inl x
      | Inr cents \<Rightarrow>
          percent_loop bank_amt percent_parts (remaining - cents)
            (splits_to_insert @ [(account, tenant, cents, note)]))"

text \<open>
  The body of \<^verbatim>\<open>apply_rule_to_bank\<close> from \<^verbatim>\<open>bank_amt = b[2]\<close> to the remainder part: the list
  \<^verbatim>\<open>splits_to_insert\<close> as it stands before the total is checked.
\<close>

definition splits_for :: "int \<Rightarrow> rule_part list \<Rightarrow> pending list result" where
  "splits_for bank_amt parts =
     (case fixed_loop bank_amt parts bank_amt [] of
        Inl e \<Rightarrow> Reject e
      | Inr (remaining, splits_to_insert) \<Rightarrow>
          (case percent_scan parts (Fin 0) [] of
             Inl e \<Rightarrow> Reject e
           | Inr (percent_sum, percent_parts) \<Rightarrow>
               if fl_gt percent_sum percent_limit then Reject (PercentOverflow percent_sum)
               else
                 (case percent_loop bank_amt percent_parts remaining splits_to_insert of
                    Inl x \<Rightarrow> Raise x
                  | Inr (remaining, splits_to_insert) \<Rightarrow>
                      (case [p \<leftarrow> parts. p_kind p = ''remainder''] of
                         [] \<Rightarrow> Done splits_to_insert
                       | [p] \<Rightarrow>
                           Done (splits_to_insert
                                   @ [(p_account p, p_tenant_id p, remaining, note_t p)])
                       | _ \<Rightarrow> Reject MultipleRemainder))))"

text \<open>
  The \<^verbatim>\<open>INSERT INTO splits\<close> of one element, with \<^verbatim>\<open>note_t or f"Auto: Regel {r[1]}"\<close>.
  \<^verbatim>\<open>sqlite3\<close> raises \<^verbatim>\<open>OverflowError\<close> when it binds an amount that is no SQLite integer, and
  the row is not inserted. The constraints of the table are taken to hold: the account and the
  tenant of a part exist, as the foreign keys of \<^verbatim>\<open>rule_parts\<close> demand.
\<close>

definition insert_split :: "int \<Rightarrow> string \<Rightarrow> store \<Rightarrow> pending \<Rightarrow> py_exception + store" where
  "insert_split bid rname cx s =
     (case s of (account, tenant, amt, note) \<Rightarrow>
        if \<not> sqlite_integer amt then Inl OverflowError
        else
          Inr (cx\<lparr>splits := splits cx @
                 [\<lparr>s_id = next_split_id cx, s_bank_id = bid, s_account = account,
                   s_tenant_id = tenant, s_amount_cents = amt,
                   s_note = Some (case note of
                                    None \<Rightarrow> ''Auto: Regel '' @ rname
                                  | Some n \<Rightarrow> if n = [] then ''Auto: Regel '' @ rname else n)\<rparr>],
               splits_seq := next_split_id cx\<rparr>))"

text \<open>
  The loop over \<^verbatim>\<open>splits_to_insert\<close>. An exception leaves it with the rows inserted so far:
  they are pending in the transaction of the caller.
\<close>

fun insert_loop ::
  "int \<Rightarrow> string \<Rightarrow> store \<Rightarrow> pending list \<Rightarrow> store \<times> py_exception option" where
  "insert_loop bid rname cx [] = (cx, None)"
| "insert_loop bid rname cx (s # splits_to_insert) =
     (case insert_split bid rname cx s of
        Inl x \<Rightarrow> (cx, Some x)
      | Inr cx' \<Rightarrow> insert_loop bid rname cx' splits_to_insert)"

definition rule_parts_of :: "store \<Rightarrow> int \<Rightarrow> rule_part list" where
  "rule_parts_of cx rid = sort_key p_id [p \<leftarrow> rule_parts cx. p_rule_id p = rid]"

definition apply_rule_to_bank ::
  "(string \<Rightarrow> string \<Rightarrow> bool option) \<Rightarrow> store \<Rightarrow> int \<Rightarrow> int \<Rightarrow> store \<times> nat result" where
  "apply_rule_to_bank re_search cx rule_id bank_id =
     (case find (\<lambda>b. b_id b = bank_id) (bank cx) of
        None \<Rightarrow> (cx, Reject BankNotFound)
      | Some b \<Rightarrow>
          (case find (\<lambda>r. r_id r = rule_id) (rules cx) of
             None \<Rightarrow> (cx, Reject RuleNotFound)
           | Some r \<Rightarrow>
               if \<not> match_rule re_search r b then (cx, Reject RuleNoMatch)
               else if rule_parts_of cx rule_id = [] then (cx, Reject NoParts)
               else
                 (case splits_for (b_amt b) (rule_parts_of cx rule_id) of
                    Reject e \<Rightarrow> (cx, Reject e)
                  | Raise x \<Rightarrow> (cx, Raise x)
                  | Done splits_to_insert \<Rightarrow>
                      let total = sum_list (map pending_amt splits_to_insert)
                      in if total \<noteq> b_amt b
                         then (cx, Reject (BalanceMismatch total (b_amt b)))
                         else
                           (case insert_loop bank_id (r_name r) cx splits_to_insert of
                              (cx', None) \<Rightarrow> (cx', Done (length splits_to_insert))
                            | (cx', Some x) \<Rightarrow> (cx', Raise x)))))"

subsection \<open>\<^verbatim>\<open>cmd_apply_rules\<close>\<close>

record apply_args =
  arg_bank_id :: "int option"
  arg_only_unbalanced :: bool

text \<open>The inner loop over the rules, left by \<^verbatim>\<open>break\<close> at the first rule that is applied.\<close>

fun try_rules ::
  "(string \<Rightarrow> string \<Rightarrow> bool option) \<Rightarrow> store \<Rightarrow> rule list \<Rightarrow> bank_row
     \<Rightarrow> py_exception + store \<times> bool" where
  "try_rules re_search cx [] b = Inr (cx, False)"
| "try_rules re_search cx (r # rs) b =
     (if match_rule re_search r b then
        (case apply_rule_to_bank re_search cx (r_id r) (b_id b) of
           (cx', Done n) \<Rightarrow> Inr (cx', True)
         | (cx', Reject e) \<Rightarrow> try_rules re_search cx' rs b
         | (cx', Raise x) \<Rightarrow> Inl x)
      else try_rules re_search cx rs b)"

text \<open>The outer loop over the bank rows.\<close>

fun batch_loop ::
  "(string \<Rightarrow> string \<Rightarrow> bool option) \<Rightarrow> rule list \<Rightarrow> bank_row list \<Rightarrow> store \<Rightarrow> nat
     \<Rightarrow> py_exception + store \<times> nat" where
  "batch_loop re_search rs [] cx applied = Inr (cx, applied)"
| "batch_loop re_search rs (b # bank_rows) cx applied =
     (if view_split_sum cx (b_id b) = Some (b_amt b)
      then batch_loop re_search rs bank_rows cx applied
      else
        (case try_rules re_search cx rs b of
           Inl x \<Rightarrow> Inl x
         | Inr (cx', ok) \<Rightarrow>
             batch_loop re_search rs bank_rows cx' (if ok then applied + 1 else applied)))"

text \<open>The three queries for \<^verbatim>\<open>bank_rows\<close>; \<^verbatim>\<open>if args.bank_id:\<close> is false for 0 too.\<close>

definition select_bank_rows :: "store \<Rightarrow> apply_args \<Rightarrow> bank_row list" where
  "select_bank_rows cx args =
     (if arg_bank_id args \<noteq> None \<and> arg_bank_id args \<noteq> Some 0 then
        [b \<leftarrow> bank cx. Some (b_id b) = arg_bank_id args]
      else if arg_only_unbalanced args then
        sort_key b_id [b \<leftarrow> bank cx. split_sum cx (b_id b) - b_amt b \<noteq> 0]
      else sort_key b_id (bank cx))"

definition active_rules :: "store \<Rightarrow> rule list" where
  "active_rules cx =
     sort_key (\<lambda>r. (r_priority r, r_id r)) [r \<leftarrow> rules cx. r_active r = 1]"

text \<open>
  The command runs in one transaction (\<^verbatim>\<open>with conn() as cx\<close>): an exception that leaves the
  block rolls every insert of the run back.
\<close>

definition cmd_apply_rules ::
  "(string \<Rightarrow> string \<Rightarrow> bool option) \<Rightarrow> store \<Rightarrow> apply_args
     \<Rightarrow> store \<times> (py_exception + nat)" where
  "cmd_apply_rules re_search cx args =
     (case batch_loop re_search (active_rules cx) (select_bank_rows cx args) cx 0 of
        Inl x \<Rightarrow> (cx, Inl x)
      | Inr (cx', applied) \<Rightarrow> (cx', Inr applied))"

subsection \<open>\<^verbatim>\<open>fetch_payments\<close> and the payments of \<^verbatim>\<open>cmd_rent_aging\<close>\<close>

definition fetch_payments ::
  "store \<Rightarrow> string \<Rightarrow> string list \<Rightarrow> date \<Rightarrow> date \<Rightarrow> (date \<times> int) list" where
  "fetch_payments cx tid accounts start_date end_date =
     (let rows = sort_key (\<lambda>(b, s). (b_date b, s_id s))
                   [(b, s). s \<leftarrow> splits cx, b \<leftarrow> bank cx,
                      b_id b = s_bank_id s \<and> s_tenant_id s = Some tid
                      \<and> s_account s \<in> set accounts
                      \<and> start_date \<le> b_date b \<and> b_date b \<le> end_date]
      in [(b_date b, s_amount_cents s). (b, s) \<leftarrow> rows, 0 < s_amount_cents s])"

text \<open>The list \<^verbatim>\<open>payments\<close> that \<^verbatim>\<open>cmd_rent_aging\<close> builds for a tenant.\<close>

definition aging_payments ::
  "store \<Rightarrow> string \<Rightarrow> string list \<Rightarrow> string list \<Rightarrow> string list \<Rightarrow> date \<Rightarrow> date
     \<Rightarrow> (date \<times> int) list" where
  "aging_payments cx tid rent_accounts nk_accounts nka_accounts start_date asof =
     fetch_payments cx tid rent_accounts start_date asof
       @ fetch_payments cx tid nk_accounts start_date asof
       @ fetch_payments cx tid nka_accounts start_date asof"

subsection \<open>\<^verbatim>\<open>fetch_manual_charges\<close>\<close>

text \<open>
  The charges made from the rows of \<^verbatim>\<open>manual_charges\<close> of a tenant, of the kinds asked for
  (\<^verbatim>\<open>kinds or ['nka']\<close>) and due within the two dates, in the order of due date and id. The
  amount of a row goes into the charge as it is, whatever its sign.
\<close>

definition fetch_manual_charges ::
  "store \<Rightarrow> string \<Rightarrow> date \<Rightarrow> date \<Rightarrow> string list option \<Rightarrow> Charge list" where
  "fetch_manual_charges cx tid start_date end_date kinds =
     (let kinds = (case kinds of
                     None \<Rightarrow> [''nka'']
                   | Some ks \<Rightarrow> if ks = [] then [''nka''] else ks);
          rows = sort_key (\<lambda>m. (m_due_date m, m_id m))
                   [m \<leftarrow> manual_charges cx.
                      m_tenant_id m = tid \<and> m_kind m \<in> set kinds
                      \<and> start_date \<le> m_due_date m \<and> m_due_date m \<le> end_date]
      in map (\<lambda>m. Charge_init (m_tenant_id m) (m_kind m) (m_due_date m) (m_amount_cents m))
           rows)"

subsection \<open>Example data\<close>

text \<open>A regular expression engine for the examples, none of whose rules has a pattern.\<close>

definition no_regex :: "string \<Rightarrow> string \<Rightarrow> bool option" where
  "no_regex re desc = None"

definition demo_store :: store where
  "demo_store =
     \<lparr>bank = [\<lparr>b_id = 1, b_date = (2025, 7, 5), b_amt = 105000, b_desc = Some ''Miete Mueller''\<rparr>,
              \<lparr>b_id = 2, b_date = (2025, 7, 6), b_amt = - 12000, b_desc = Some ''Wasser''\<rparr>,
              \<lparr>b_id = 3, b_date = (2025, 7, 7), b_amt = 101, b_desc = None\<rparr>],
      rules = [\<lparr>r_id = 1, r_name = ''Miete'', r_like = Some ''%Mueller%'', r_min_c = None,
                r_max_c = None, r_sign = ''in'', r_priority = 100, r_active = 1,
                r_regex = None\<rparr>,
               \<lparr>r_id = 2, r_name = ''Wasser'', r_like = None, r_min_c = None,
                r_max_c = None, r_sign = ''out'', r_priority = 100, r_active = 1,
                r_regex = None\<rparr>,
               \<lparr>r_id = 3, r_name = ''Halb'', r_like = None, r_min_c = None,
                r_max_c = Some 1000, r_sign = ''in'', r_priority = 50, r_active = 1,
                r_regex = None\<rparr>],
      rule_parts =
        [\<lparr>p_id = 1, p_rule_id = 1, p_account = ''3000'', p_tenant_id = Some ''M001'',
          p_kind = ''fixed'', val_c = Some 85000, val_p = None, note_t = Some []\<rparr>,
         \<lparr>p_id = 2, p_rule_id = 1, p_account = ''3010'', p_tenant_id = Some ''M001'',
          p_kind = ''remainder'', val_c = None, val_p = None, note_t = Some ''NK''\<rparr>,
         \<lparr>p_id = 3, p_rule_id = 2, p_account = ''4010'', p_tenant_id = None,
          p_kind = ''fixed'', val_c = Some 5000, val_p = None, note_t = Some []\<rparr>,
         \<lparr>p_id = 4, p_rule_id = 2, p_account = ''4020'', p_tenant_id = None,
          p_kind = ''remainder'', val_c = None, val_p = None, note_t = Some []\<rparr>,
         \<lparr>p_id = 5, p_rule_id = 3, p_account = ''3000'', p_tenant_id = None,
          p_kind = ''percent'', val_c = None, val_p = Some (Fin 50), note_t = Some []\<rparr>,
         \<lparr>p_id = 6, p_rule_id = 3, p_account = ''3010'', p_tenant_id = None,
          p_kind = ''percent'', val_c = None, val_p = Some (Fin 50), note_t = Some []\<rparr>],
      splits = [], splits_seq = 0, manual_charges = []\<rparr>"

definition overflow_store :: store where
  "overflow_store =
     \<lparr>bank = [\<lparr>b_id = 1, b_date = (2025, 7, 5), b_amt = 10000, b_desc = Some ''Miete''\<rparr>],
      rules = [\<lparr>r_id = 1, r_name = ''A'', r_like = None, r_min_c = None, r_max_c = None,
                r_sign = ''any'', r_priority = 100, r_active = 1, r_regex = None\<rparr>,
               \<lparr>r_id = 2, r_name = ''B'', r_like = None, r_min_c = None, r_max_c = None,
                r_sign = ''any'', r_priority = 100, r_active = 1, r_regex = None\<rparr>],
      rule_parts =
        [\<lparr>p_id = 1, p_rule_id = 1, p_account = ''3000'', p_tenant_id = None,
          p_kind = ''fixed'', val_c = None, val_p = None, note_t = Some []\<rparr>,
         \<lparr>p_id = 2, p_rule_id = 1, p_account = ''3010'', p_tenant_id = None,
          p_kind = ''percent'', val_c = None, val_p = Some (fl_round (10001 / 100)),
          note_t = Some []\<rparr>,
         \<lparr>p_id = 3, p_rule_id = 2, p_account = ''3000'', p_tenant_id = None,
          p_kind = ''fixed'', val_c = Some 5000, val_p = None, note_t = Some []\<rparr>,
         \<lparr>p_id = 4, p_rule_id = 2, p_account = ''3010'', p_tenant_id = None,
          p_kind = ''percent'', val_c = None, val_p = Some (fl_round (10001 / 100)),
          note_t = Some []\<rparr>],
      splits = [], splits_seq = 0, manual_charges = []\<rparr>"

definition zero_store :: store where
  "zero_store =
     \<lparr>bank = [\<lparr>b_id = 1, b_date = (2025, 7, 5), b_amt = 0, b_desc = Some ''Storno''\<rparr>],
      rules = [\<lparr>r_id = 1, r_name = ''A'', r_like = None, r_min_c = None, r_max_c = None,
                r_sign = ''any'', r_priority = 100, r_active = 1, r_regex = None\<rparr>],
      rule_parts =
        [\<lparr>p_id = 1, p_rule_id = 1, p_account = ''3000'', p_tenant_id = None,
          p_kind = ''fixed'', val_c = Some (- 5000), val_p = None, note_t = Some []\<rparr>,
         \<lparr>p_id = 2, p_rule_id = 1, p_account = ''3010'', p_tenant_id = None,
          p_kind = ''remainder'', val_c = None, val_p = None, note_t = Some []\<rparr>],
      splits = [], splits_seq = 0, manual_charges = []\<rparr>"

definition aging_store :: store where
  "aging_store =
     \<lparr>bank = [\<lparr>b_id = 1, b_date = (2025, 7, 5), b_amt = 85000, b_desc = Some ''Miete''\<rparr>,
              \<lparr>b_id = 2, b_date = (2025, 7, 1), b_amt = 20000, b_desc = Some ''NK''\<rparr>],
      rules = [], rule_parts = [],
      splits = [\<lparr>s_id = 1, s_bank_id = 1, s_account = ''3000'', s_tenant_id = Some ''M001'',
                 s_amount_cents = 85000, s_note = Some []\<rparr>,
                \<lparr>s_id = 2, s_bank_id = 2, s_account = ''3010'', s_tenant_id = Some ''M001'',
                 s_amount_cents = 20000, s_note = Some []\<rparr>],
      splits_seq = 2, manual_charges = []\<rparr>"

text \<open>
  A bank row of the largest amount there is, and a rule whose second fixed part comes to an
  amount beyond it once its sign is turned.
\<close>

definition bind_store :: store where
  "bind_store =
     \<lparr>bank = [\<lparr>b_id = 1, b_date = (2025, 7, 5), b_amt = 9223372036854775807,
               b_desc = Some ''Miete''\<rparr>],
      rules = [\<lparr>r_id = 1, r_name = ''A'', r_like = None, r_min_c = None, r_max_c = None,
                r_sign = ''any'', r_priority = 100, r_active = 1, r_regex = None\<rparr>],
      rule_parts =
        [\<lparr>p_id = 1, p_rule_id = 1, p_account = ''3000'', p_tenant_id = None,
          p_kind = ''fixed'', val_c = Some 1, val_p = None, note_t = Some []\<rparr>,
         \<lparr>p_id = 2, p_rule_id = 1, p_account = ''3010'', p_tenant_id = None,
          p_kind = ''fixed'', val_c = Some (- 9223372036854775808), val_p = None,
          note_t = Some []\<rparr>,
         \<lparr>p_id = 3, p_rule_id = 1, p_account = ''3020'', p_tenant_id = None,
          p_kind = ''remainder'', val_c = None, val_p = None, note_t = Some []\<rparr>],
      splits = [], splits_seq = 0, manual_charges = []\<rparr>"

text \<open>A tenant with a credit from the settlement of the operating costs.\<close>

definition credit_store :: store where
  "credit_store =
     \<lparr>bank = [], rules = [], rule_parts = [], splits = [], splits_seq = 0,
      manual_charges =
        [\<lparr>m_id = 1, m_tenant_id = ''M001'', m_kind = ''nka'', m_due_date = (2025, 6, 1),
          m_amount_cents = - 5000, m_issued_date = None, m_note = Some ''Guthaben''\<rparr>]\<rparr>"

definition demo_args :: apply_args where
  "demo_args = \<lparr>arg_bank_id = None, arg_only_unbalanced = False\<rparr>"

section \<open>Auxiliary notions for the proofs\<close>

text \<open>What a list of payments can pay in all: a payment that is not positive pays nothing.\<close>

definition pooled :: "(date \<times> int) list \<Rightarrow> int" where
  "pooled ps = sum_list (map (\<lambda>(d, amt). max amt 0) ps)"

definition charge_inv :: "Charge \<Rightarrow> bool" where
  "charge_inv c = (0 \<le> open_cents c \<and> open_cents c \<le> amount_cents c)"

definition charge_step :: "Charge \<Rightarrow> Charge \<Rightarrow> bool" where
  "charge_step c c' = (open_cents c' \<le> open_cents c \<and> c' = c\<lparr>open_cents := open_cents c'\<rparr>)"

text \<open>
  The sum of the percent values as the second loop forms it, and the entry of
  \<^verbatim>\<open>splits_to_insert\<close> for a fixed part; both for parts that carry their value.
\<close>

definition percent_sum_of :: "rule_part list \<Rightarrow> pyfloat" where
  "percent_sum_of parts =
     foldl fl_add (Fin 0) (map (\<lambda>p. the (val_p p)) [p \<leftarrow> parts. p_kind p = ''percent''])"

definition fixed_pending :: "int \<Rightarrow> rule_part \<Rightarrow> pending" where
  "fixed_pending bank_amt p =
     (p_account p, p_tenant_id p, fixed_amount bank_amt (the (val_c p)), note_t p)"

section \<open>Properties of the aging engine\<close>

text \<open>
  C8. The bucketizer is total on the integers, with inclusive upper bounds: every value up to
  30, zero and negative values included, gives "0-30", 31 to 60 gives "31-60", 61 to 90 gives
  "61-90", anything above gives "90+"; 30, 31, 60, 61, 90 and 91 give "0-30", "31-60",
  "31-60", "61-90", "61-90" and "90+".
\<close>

theorem bucket_for_boundaries:
  "(d \<le> 30 \<longrightarrow> bucket_for d = ''0-30'')
   \<and> (31 \<le> d \<and> d \<le> 60 \<longrightarrow> bucket_for d = ''31-60'')
   \<and> (61 \<le> d \<and> d \<le> 90 \<longrightarrow> bucket_for d = ''61-90'')
   \<and> (90 < d \<longrightarrow> bucket_for d = ''90+'')
   \<and> map bucket_for [30, 31, 60, 61, 90, 91]
       = [''0-30'', ''31-60'', ''31-60'', ''61-90'', ''61-90'', ''90+'']"
  by (simp add: bucket_for_def)

theorem bucket_for_boundaries_witness:
  "bucket_for (-5) = ''0-30'' \<and> bucket_for 45 = ''31-60'' \<and> bucket_for 75 = ''61-90''
   \<and> bucket_for 400 = ''90+''"
  using bucket_for_boundaries [of "-5"] bucket_for_boundaries [of 45]
    bucket_for_boundaries [of 75] bucket_for_boundaries [of 400]
  by simp

subsection \<open>One payment, several payments\<close>

lemma walk_nonpos: "r \<le> 0 \<Longrightarrow> walk r cs = cs"
  by (cases cs) simp_all

lemma length_walk: "length (walk r cs) = length cs"
  by (induction cs arbitrary: r) (simp_all add: Let_def)

lemma walk_walk: "walk b (walk a cs) = walk (max a 0 + max b 0) cs"
proof (induction cs arbitrary: a b)
  case Nil
  then show ?case by simp
next
  case (Cons c cs)
  show ?case
  proof (cases "a \<le> 0")
    case True
    then show ?thesis by (cases "b \<le> 0") (simp_all add: walk_nonpos max_def)
  next
    case a: False
    show ?thesis
    proof (cases "open_cents c \<le> 0")
      case True
      with a show ?thesis by (simp add: Cons.IH walk_nonpos)
    next
      case False
      with a show ?thesis
        by (auto simp add: Cons.IH Let_def min_def max_def walk_nonpos algebra_simps)
    qed
  qed
qed

lemma pooled_nonneg: "0 \<le> pooled ps"
  unfolding pooled_def by (rule sum_list_nonneg) auto

lemma foldl_walk: "foldl (\<lambda>cs (d, amt). walk amt cs) cs ps = walk (pooled ps) cs" 
proof (induction ps arbitrary: cs rule: rev_induct)
  case Nil
  then show ?case by (simp add: pooled_def walk_nonpos)
next
  case (snoc p ps)
  from pooled_nonneg [of ps] snoc show ?case
    by (cases p) (simp add: walk_walk pooled_def max_def)
qed

lemma apf_pooled:
  "apply_payments_fifo charges payments asof priority =
     walk (pooled (eligible_payments payments asof)) (eligible_charges charges asof priority)"
  by (simp add: apply_payments_fifo_def foldl_walk)

lemma pooled_mset: "mset ps = mset qs \<Longrightarrow> pooled ps = pooled qs"
proof -
  assume "mset ps = mset qs"
  then have "mset (map (\<lambda>(d, amt). max amt 0) ps) = mset (map (\<lambda>(d, amt). max amt 0) qs)"
    by (simp only: mset_map)
  then have "sum_mset (mset (map (\<lambda>(d, amt). max amt 0) ps))
      = sum_mset (mset (map (\<lambda>(d, amt). max amt 0) qs))"
    by (simp only:)
  then show ?thesis by (simp only: pooled_def sum_mset_sum_list)
qed

lemma pooled_eligible_mset:
  assumes "mset ps = mset qs"
  shows "pooled (eligible_payments ps asof) = pooled (eligible_payments qs asof)"
proof (rule pooled_mset)
  from assms show "mset (eligible_payments ps asof) = mset (eligible_payments qs asof)"
    by (simp only: eligible_payments_def mset_filter)
qed

lemma fetch_payments_positive:
  "\<forall>(d, amt) \<in> set (fetch_payments cx tid accounts start_date end_date). 0 < amt"
  by (auto simp add: fetch_payments_def Let_def)

lemma pooled_positive:
  "\<forall>(d, amt) \<in> set ps. 0 < amt \<Longrightarrow> pooled ps = sum_list (map snd ps)"
  by (induction ps) (auto simp add: pooled_def)

lemma inv_take:
  "charge_inv c \<Longrightarrow> 0 < r \<Longrightarrow>
   charge_inv (c\<lparr>open_cents := open_cents c - min (open_cents c) r\<rparr>)"
  by (simp add: charge_inv_def min_def)

lemma step_take:
  "0 < open_cents c \<Longrightarrow> 0 < r \<Longrightarrow>
   charge_step c (c\<lparr>open_cents := open_cents c - min (open_cents c) r\<rparr>)"
  by (simp add: charge_step_def min_def)

lemma step_refl: "list_all2 charge_step cs cs"
  by (rule list_all2_refl) (simp add: charge_step_def)

lemma walk_inv: "\<forall>c \<in> set cs. charge_inv c \<Longrightarrow> \<forall>c \<in> set (walk r cs). charge_inv c"
proof (induction cs arbitrary: r)
  case Nil
  then show ?case by simp
next
  case (Cons c cs)
  then have c: "charge_inv c" and cs: "\<forall>c \<in> set cs. charge_inv c" by simp_all
  show ?case
  proof (cases "r \<le> 0 \<or> open_cents c \<le> 0")
    case True
    with c cs Cons.IH [OF cs, of r] show ?thesis by auto
  next
    case False
    then have "0 < r" by simp
    with c have "charge_inv (c\<lparr>open_cents := open_cents c - min (open_cents c) r\<rparr>)"
      by (rule inv_take)
    with False Cons.IH [OF cs, of "r - min (open_cents c) r"] show ?thesis
      by (simp add: Let_def)
  qed
qed

lemma walk_step: "list_all2 charge_step cs (walk r cs)"
proof (induction cs arbitrary: r)
  case Nil
  then show ?case by simp
next
  case (Cons c cs)
  have r: "charge_step c c" by (simp add: charge_step_def)
  show ?case
  proof (cases "r \<le> 0 \<or> open_cents c \<le> 0")
    case True
    with r Cons.IH [of r] step_refl [of cs] show ?thesis by auto
  next
    case False
    then have "charge_step c (c\<lparr>open_cents := open_cents c - min (open_cents c) r\<rparr>)"
      by (intro step_take) simp_all
    with False Cons.IH [of "r - min (open_cents c) r"] show ?thesis
      by (simp add: Let_def)
  qed
qed

lemma pay_states_inv:
  "\<forall>c \<in> set cs. charge_inv c \<Longrightarrow> \<forall>st \<in> set (pay_states cs ps). \<forall>c \<in> set st. charge_inv c"
proof (induction ps arbitrary: cs)
  case Nil
  then show ?case by simp
next
  case (Cons p ps)
  obtain d amt where p: "p = (d, amt)" by (cases p)
  from Cons.prems have w: "\<forall>c \<in> set (walk amt cs). charge_inv c" by (rule walk_inv)
  from Cons.IH [OF w] w show ?case by (simp add: p)
qed

lemma pay_states_step: "successively (list_all2 charge_step) (cs # pay_states cs ps)"
proof (induction ps arbitrary: cs)
  case Nil
  then show ?case by simp
next
  case (Cons p ps)
  obtain d amt where p: "p = (d, amt)" by (cases p)
  from Cons.IH [of "walk amt cs"] show ?case by (simp add: p walk_step)
qed

lemma last_pay_states:
  "last (cs # pay_states cs ps) = foldl (\<lambda>cs (d, amt). walk amt cs) cs ps"
  by (induction ps arbitrary: cs) auto

lemma eligible_charges_set:
  "set (eligible_charges charges asof priority)
     = {c \<in> set charges. due_date c \<le> asof \<and> 0 < open_cents c}"
  by (auto simp add: eligible_charges_def sort_charges_def)

lemma walk_Suc:
  "0 \<le> open_cents c \<Longrightarrow> walk r (c # cs) ! Suc j = walk (max 0 (r - open_cents c)) cs ! j"
  by (simp add: Let_def min_def max_def walk_nonpos)

lemma walk_closed:
  "\<forall>c \<in> set cs. 0 \<le> open_cents c \<Longrightarrow> i < length cs \<Longrightarrow>
   walk r cs ! i = (cs ! i)\<lparr>open_cents := open_cents (cs ! i)
       - min (open_cents (cs ! i)) (max 0 (r - sum_list (map open_cents (take i cs))))\<rparr>"
proof (induction cs arbitrary: r i)
  case Nil
  then show ?case by simp
next
  case (Cons c cs)
  show ?case
  proof (cases i)
    case 0
    then show ?thesis using Cons.prems by (simp add: Let_def min_def max_def)
  next
    case (Suc j)
    with Cons.prems have j: "j < length cs" and nn: "\<forall>c \<in> set cs. 0 \<le> open_cents c"
      and c0: "0 \<le> open_cents c" by simp_all
    have s: "0 \<le> sum_list (map open_cents (take j cs))"
      using nn by (intro sum_list_nonneg) (auto dest: in_set_takeD)
    then have m: "max 0 (max 0 (r - open_cents c) - sum_list (map open_cents (take j cs)))
        = max 0 (r - (open_cents c + sum_list (map open_cents (take j cs))))"
      by (simp add: max_def)
    have "walk r (c # cs) ! Suc j = walk (max 0 (r - open_cents c)) cs ! j"
      using c0 by (rule walk_Suc)
    also have "\<dots> = (cs ! j)\<lparr>open_cents := open_cents (cs ! j)
       - min (open_cents (cs ! j))
           (max 0 (max 0 (r - open_cents c) - sum_list (map open_cents (take j cs))))\<rparr>"
      using nn j by (rule Cons.IH)
    finally show ?thesis by (simp only: Suc m nth_Cons_Suc take_Suc_Cons list.map sum_list.Cons)
  qed
qed

text \<open>
  C3. Charges: rent due 2025-07-03 over 85000 and operating costs (nk) due 2025-07-03 over
  20000, both fully open; one payment of 90000 on 2025-07-05; any as-of date from 2025-07-05 on.
  Mode "oldest" leaves rent open with 0 and nk with 15000; mode "nk_first" leaves nk open with 0
  and rent with 15000. The returned list is in the sorted order of the mode.
\<close>

theorem fifo_priority_example:
  assumes "(2025, 7, 5) \<le> asof"
  shows "apply_payments_fifo
           [Charge_init t ''rent'' (2025, 7, 3) 85000, Charge_init t ''nk'' (2025, 7, 3) 20000]
           [((2025, 7, 5), 90000)] asof ''oldest''
         = [(Charge_init t ''rent'' (2025, 7, 3) 85000)\<lparr>open_cents := 0\<rparr>,
            (Charge_init t ''nk'' (2025, 7, 3) 20000)\<lparr>open_cents := 15000\<rparr>]
       \<and> apply_payments_fifo
           [Charge_init t ''rent'' (2025, 7, 3) 85000, Charge_init t ''nk'' (2025, 7, 3) 20000]
           [((2025, 7, 5), 90000)] asof ''nk_first''
         = [(Charge_init t ''nk'' (2025, 7, 3) 20000)\<lparr>open_cents := 0\<rparr>,
            (Charge_init t ''rent'' (2025, 7, 3) 85000)\<lparr>open_cents := 15000\<rparr>]"
proof -
  have "((2025, 7, 3) :: date) \<le> (2025, 7, 5)" by simp
  with assms have due: "(2025, 7, 3) \<le> asof" by (rule order_trans [rotated])
  from assms due show ?thesis
    by (simp add: apply_payments_fifo_def eligible_charges_def eligible_payments_def
        sort_charges_def rank_def Charge_init_def)
qed

theorem fifo_priority_example_witness:
  "((2025, 7, 5) :: date) \<le> (2025, 7, 31)
   \<and> map (\<lambda>c. (kind c, open_cents c)) (apply_payments_fifo
         [Charge_init ''M001'' ''rent'' (2025, 7, 3) 85000,
          Charge_init ''M001'' ''nk'' (2025, 7, 3) 20000]
         [((2025, 7, 5), 90000)] (2025, 7, 31) ''oldest'') = [(''rent'', 0), (''nk'', 15000)]
   \<and> map (\<lambda>c. (kind c, open_cents c)) (apply_payments_fifo
         [Charge_init ''M001'' ''rent'' (2025, 7, 3) 85000,
          Charge_init ''M001'' ''nk'' (2025, 7, 3) 20000]
         [((2025, 7, 5), 90000)] (2025, 7, 31) ''nk_first'') = [(''nk'', 0), (''rent'', 15000)]"
proof -
  have h: "((2025, 7, 5) :: date) \<le> (2025, 7, 31)" by simp
  from fifo_priority_example [OF h, of "''M001''"] h show ?thesis
    by (simp add: Charge_init_def)
qed

lemma step_reset:
  "list_all2 charge_step cs cs' \<Longrightarrow>
   map (\<lambda>c. c\<lparr>open_cents := amount_cents c\<rparr>) cs'
     = map (\<lambda>c. c\<lparr>open_cents := amount_cents c\<rparr>) cs"
proof (induction rule: list_all2_induct)
  case Nil
  then show ?case by simp
next
  case (Cons c cs c' cs')
  from Cons.hyps(1) have "c' = c\<lparr>open_cents := open_cents c'\<rparr>"
    by (simp add: charge_step_def)
  then have "c'\<lparr>open_cents := amount_cents c'\<rparr> = c\<lparr>open_cents := amount_cents c\<rparr>"
    by (cases c, cases c') simp
  with Cons.IH show ?case by simp
qed

lemma pay_states_reset:
  "\<forall>st \<in> set (cs # pay_states cs ps).
     map (\<lambda>c. c\<lparr>open_cents := amount_cents c\<rparr>) st
       = map (\<lambda>c. c\<lparr>open_cents := amount_cents c\<rparr>) cs"
proof (induction ps arbitrary: cs)
  case Nil
  then show ?case by simp
next
  case (Cons p ps)
  obtain d amt where p: "p = (d, amt)" by (cases p)
  have "map (\<lambda>c. c\<lparr>open_cents := amount_cents c\<rparr>) (walk amt cs)
      = map (\<lambda>c. c\<lparr>open_cents := amount_cents c\<rparr>) cs"
    using walk_step by (rule step_reset)
  with Cons.IH [of "walk amt cs"] show ?case by (simp add: p)
qed

lemma mset_sort_charges: "mset (sort_charges priority cs) = mset cs"
  by (simp add: sort_charges_def)

lemma eligible_charges_reset:
  assumes "\<forall>c \<in> set charges. open_cents c = amount_cents c"
  shows "mset (map (\<lambda>c. c\<lparr>open_cents := amount_cents c\<rparr>)
            (eligible_charges charges asof priority))
    = mset [c \<leftarrow> charges. due_date c \<le> asof \<and> 0 < amount_cents c]"
proof -
  have f: "[c \<leftarrow> charges. due_date c \<le> asof \<and> 0 < open_cents c]
      = [c \<leftarrow> charges. due_date c \<le> asof \<and> 0 < amount_cents c]"
    using assms by (intro filter_cong) simp_all
  have "map (\<lambda>c. c\<lparr>open_cents := amount_cents c\<rparr>)
          [c \<leftarrow> charges. due_date c \<le> asof \<and> 0 < amount_cents c]
      = [c \<leftarrow> charges. due_date c \<le> asof \<and> 0 < amount_cents c]"
    using assms by (intro map_idI) simp
  moreover have "mset (map (\<lambda>c. c\<lparr>open_cents := amount_cents c\<rparr>)
            (eligible_charges charges asof priority))
      = mset (map (\<lambda>c. c\<lparr>open_cents := amount_cents c\<rparr>)
            [c \<leftarrow> charges. due_date c \<le> asof \<and> 0 < amount_cents c])"
    unfolding eligible_charges_def f mset_map mset_sort_charges ..
  ultimately show ?thesis by simp
qed

text \<open>
  C9 (as the code has it). A charge is made open with its whole amount, of whatever sign. The
  charges that take part in an allocation are those due on or before the as-of date with a
  positive amount: every state the list of charges goes through (the eligible charges, then
  the list after each payment) holds exactly these, and each of them with 0 \<le> open \<le>
  amount. From one state to the next each charge keeps all its fields but the open amount,
  which does not grow; and the last state is what the allocator returns. Within one payment
  each charge is written at most once, so that a charge has, at any moment, its open amount
  of the state before or of the state after. Every other charge is dropped on entry and never
  written: it stays open with its amount.
\<close>

theorem open_amount_invariant:
  "let charges = map (\<lambda>(tid, k, d, amt). Charge_init tid k d amt) rows;
       states = fifo_states charges payments asof priority
   in (\<forall>c \<in> set charges. open_cents c = amount_cents c)
      \<and> (\<forall>st \<in> set states.
            (\<forall>c \<in> set st. 0 \<le> open_cents c \<and> open_cents c \<le> amount_cents c)
            \<and> mset (map (\<lambda>c. c\<lparr>open_cents := amount_cents c\<rparr>) st)
                = mset [c \<leftarrow> charges. due_date c \<le> asof \<and> 0 < amount_cents c])
      \<and> successively (list_all2 (\<lambda>c c'. open_cents c' \<le> open_cents c
             \<and> c' = c\<lparr>open_cents := open_cents c'\<rparr>)) states
      \<and> last states = apply_payments_fifo charges payments asof priority"
proof -
  define charges where "charges = map (\<lambda>(tid, k, d, amt). Charge_init tid k d amt) rows"
  let ?cs = "eligible_charges charges asof priority"
  let ?ps = "eligible_payments payments asof"
  have init: "\<forall>c \<in> set charges. open_cents c = amount_cents c"
    by (auto simp add: charges_def Charge_init_def)
  from init have i0: "\<forall>c \<in> set ?cs. charge_inv c"
    by (auto simp add: eligible_charges_set charge_inv_def)
  with pay_states_inv [OF i0]
  have inv: "\<forall>st \<in> set (fifo_states charges payments asof priority).
      \<forall>c \<in> set st. 0 \<le> open_cents c \<and> open_cents c \<le> amount_cents c"
    by (simp add: fifo_states_def charge_inv_def)
  have who: "\<forall>st \<in> set (fifo_states charges payments asof priority).
      mset (map (\<lambda>c. c\<lparr>open_cents := amount_cents c\<rparr>) st)
        = mset [c \<leftarrow> charges. due_date c \<le> asof \<and> 0 < amount_cents c]"
  proof
    fix st
    assume "st \<in> set (fifo_states charges payments asof priority)"
    then have "st \<in> set (?cs # pay_states ?cs ?ps)" by (simp add: fifo_states_def)
    with pay_states_reset [of ?cs ?ps]
    have "map (\<lambda>c. c\<lparr>open_cents := amount_cents c\<rparr>) st
        = map (\<lambda>c. c\<lparr>open_cents := amount_cents c\<rparr>) ?cs"
      by blast
    with eligible_charges_reset [OF init, of asof priority]
    show "mset (map (\<lambda>c. c\<lparr>open_cents := amount_cents c\<rparr>) st)
        = mset [c \<leftarrow> charges. due_date c \<le> asof \<and> 0 < amount_cents c]"
      by simp
  qed
  have "list_all2 charge_step = list_all2 (\<lambda>c c'. open_cents c' \<le> open_cents c
                \<and> c' = c\<lparr>open_cents := open_cents c'\<rparr>)"
    by (simp add: charge_step_def [abs_def])
  with pay_states_step [of ?cs ?ps]
  have step: "successively (list_all2 (\<lambda>c c'. open_cents c' \<le> open_cents c
                \<and> c' = c\<lparr>open_cents := open_cents c'\<rparr>))
             (fifo_states charges payments asof priority)"
    by (simp add: fifo_states_def)
  have fin: "last (fifo_states charges payments asof priority)
             = apply_payments_fifo charges payments asof priority"
    unfolding fifo_states_def apply_payments_fifo_def by (rule last_pay_states)
  from init inv who step fin show ?thesis
    unfolding Let_def charges_def [symmetric] by blast
qed

theorem open_amount_invariant_witness:
  "list_all (\<lambda>c. open_cents c = amount_cents c)
     [Charge_init ''M001'' ''rent'' (2025, 7, 3) 85000,
      Charge_init ''M001'' ''nk'' (2025, 8, 3) 20000,
      Charge_init ''M001'' ''nk'' (2025, 7, 3) 20000]
   \<and> list_all (list_all (\<lambda>c. 0 \<le> open_cents c \<and> open_cents c \<le> amount_cents c))
       (fifo_states
         [Charge_init ''M001'' ''rent'' (2025, 7, 3) 85000,
          Charge_init ''M001'' ''nk'' (2025, 8, 3) 20000,
          Charge_init ''M001'' ''nk'' (2025, 7, 3) 20000]
         [((2025, 7, 5), 90000), ((2025, 7, 20), 30000)] (2025, 7, 31) ''oldest'')
   \<and> map (map open_cents) (fifo_states
         [Charge_init ''M001'' ''rent'' (2025, 7, 3) 85000,
          Charge_init ''M001'' ''nk'' (2025, 8, 3) 20000,
          Charge_init ''M001'' ''nk'' (2025, 7, 3) 20000]
         [((2025, 7, 5), 90000), ((2025, 7, 20), 30000)] (2025, 7, 31) ''oldest'')
       = [[85000, 20000], [0, 15000], [0, 0]]"
proof -
  let ?rows = "[(''M001'', ''rent'', (2025 :: nat, 7 :: nat, 3 :: nat), 85000 :: int),
      (''M001'', ''nk'', (2025, 8, 3), 20000), (''M001'', ''nk'', (2025, 7, 3), 20000)]"
  let ?cs = "[Charge_init ''M001'' ''rent'' (2025, 7, 3) 85000,
      Charge_init ''M001'' ''nk'' (2025, 8, 3) 20000,
      Charge_init ''M001'' ''nk'' (2025, 7, 3) 20000]"
  let ?ps = "[((2025 :: nat, 7 :: nat, 5 :: nat), 90000 :: int), ((2025, 7, 20), 30000)]"
  have r: "map (\<lambda>(tid, k, d, amt). Charge_init tid k d amt) ?rows = ?cs" by simp
  have v: "map (map open_cents) (fifo_states ?cs ?ps (2025, 7, 31) ''oldest'')
       = [[85000, 20000], [0, 15000], [0, 0]]"
    by (simp add: fifo_states_def eligible_charges_def eligible_payments_def
        sort_charges_def Charge_init_def)
  from open_amount_invariant [of ?rows ?ps "(2025, 7, 31)" "''oldest''"]
  have "(\<forall>c \<in> set ?cs. open_cents c = amount_cents c)
      \<and> (\<forall>st \<in> set (fifo_states ?cs ?ps (2025, 7, 31) ''oldest'').
          \<forall>c \<in> set st. 0 \<le> open_cents c \<and> open_cents c \<le> amount_cents c)"
    unfolding Let_def r by blast
  then have l: "list_all (\<lambda>c. open_cents c = amount_cents c) ?cs"
    and a: "list_all (list_all (\<lambda>c. 0 \<le> open_cents c \<and> open_cents c \<le> amount_cents c))
      (fifo_states ?cs ?ps (2025, 7, 31) ''oldest'')"
    by (simp_all add: list_all_iff)
  show ?thesis by (rule conjI [OF l conjI [OF a v]])
qed

text \<open>
  Against C9 as it is stated: a credit of 50.00 from the settlement of the operating costs is
  a row of \<^verbatim>\<open>manual_charges\<close> with the amount -5000, and \<^verbatim>\<open>fetch_manual_charges\<close> makes the
  charge of it that \<^verbatim>\<open>cmd_rent_aging\<close> hands to the allocator with the other charges of the
  tenant. This charge is open with -5000, below zero, before the allocation and, being in no
  state of the allocation, all through it.
\<close>

theorem credit_charge_open_negative:
  "fetch_manual_charges credit_store ''M001'' (2024, 8, 1) (2025, 7, 31) (Some [''nka''])
     = [\<lparr>tenant_id = ''M001'', kind = ''nka'', due_date = (2025, 6, 1),
         amount_cents = - 5000, open_cents = - 5000\<rparr>]
   \<and> map (map (\<lambda>c. (kind c, amount_cents c, open_cents c)))
       (fifo_states
          (Charge_init ''M001'' ''rent'' (2025, 7, 3) 85000
             # fetch_manual_charges credit_store ''M001'' (2024, 8, 1) (2025, 7, 31)
                 (Some [''nka'']))
          [((2025, 7, 5), 80000)] (2025, 7, 31) ''oldest'')
       = [[(''rent'', 85000, 85000)], [(''rent'', 85000, 5000)]]"
  by (simp add: fetch_manual_charges_def credit_store_def Charge_init_def fifo_states_def
      eligible_charges_def eligible_payments_def sort_charges_def)

text \<open>
  C10. The result of the allocator does not change when the list of payments is permuted. For
  payments of positive amounts it is the result of one pooled payment over the sum of the
  payments dated on or before the as-of date; and the payments that \<^verbatim>\<open>cmd_rent_aging\<close>
  hands over are of positive amounts, since \<^verbatim>\<open>fetch_payments\<close> keeps no other.
\<close>

theorem payment_order_irrelevant:
  "(mset payments' = mset payments \<longrightarrow>
      apply_payments_fifo charges payments' asof priority
        = apply_payments_fifo charges payments asof priority)
   \<and> ((\<forall>(d, amt) \<in> set payments. 0 < amt) \<longrightarrow>
      apply_payments_fifo charges payments asof priority
        = apply_payments_fifo charges
            [(asof, sum_list (map snd (eligible_payments payments asof)))] asof priority)
   \<and> list_all (\<lambda>(d, amt). 0 < amt)
       (aging_payments cx tid rent_accounts nk_accounts nka_accounts start_date asof)"
proof (intro conjI impI)
  show "list_all (\<lambda>(d, amt). 0 < amt)
       (aging_payments cx tid rent_accounts nk_accounts nka_accounts start_date asof)"
    using fetch_payments_positive [of cx tid rent_accounts start_date asof]
      fetch_payments_positive [of cx tid nk_accounts start_date asof]
      fetch_payments_positive [of cx tid nka_accounts start_date asof]
    by (auto simp add: aging_payments_def list_all_iff)
next
  assume "mset payments' = mset payments"
  then show "apply_payments_fifo charges payments' asof priority
        = apply_payments_fifo charges payments asof priority"
    using pooled_eligible_mset [of payments' payments asof] by (simp add: apf_pooled)
next
  assume pos: "\<forall>(d, amt) \<in> set payments. 0 < amt"
  then have "\<forall>(d, amt) \<in> set (eligible_payments payments asof). 0 < amt"
    by (auto simp add: eligible_payments_def)
  then have p: "pooled (eligible_payments payments asof) = sum_list (map snd (eligible_payments payments asof))"
    by (rule pooled_positive)
  have "0 \<le> pooled (eligible_payments payments asof)" by (rule pooled_nonneg)
  with p have "pooled (eligible_payments [(asof, sum_list (map snd (eligible_payments payments asof)))] asof)
     = pooled (eligible_payments payments asof)"
    by (simp add: eligible_payments_def pooled_def)
  then show "apply_payments_fifo charges payments asof priority
        = apply_payments_fifo charges
            [(asof, sum_list (map snd (eligible_payments payments asof)))] asof priority"
    by (simp add: apf_pooled)
qed

theorem payment_order_irrelevant_witness:
  "mset [((2025, 7, 20), 30000), ((2025, 7, 5), 60000 :: int), ((2025, 8, 1 :: nat), 7)]
     = mset [((2025 :: nat, 7 :: nat, 5), 60000), ((2025, 8, 1), 7), ((2025, 7, 20), 30000)]
   \<and> list_all (\<lambda>(d, amt). 0 < amt)
       [((2025 :: nat, 7 :: nat, 5 :: nat), 60000 :: int), ((2025, 8, 1), 7), ((2025, 7, 20), 30000)]
   \<and> apply_payments_fifo
         [Charge_init ''M001'' ''rent'' (2025, 7, 3) 85000,
          Charge_init ''M001'' ''nk'' (2025, 7, 3) 20000]
         [((2025, 7, 20), 30000), ((2025, 7, 5), 60000), ((2025, 8, 1), 7)] (2025, 7, 31) ''oldest''
     = apply_payments_fifo
         [Charge_init ''M001'' ''rent'' (2025, 7, 3) 85000,
          Charge_init ''M001'' ''nk'' (2025, 7, 3) 20000]
         [((2025, 7, 5), 60000), ((2025, 8, 1), 7), ((2025, 7, 20), 30000)] (2025, 7, 31) ''oldest''
   \<and> apply_payments_fifo
         [Charge_init ''M001'' ''rent'' (2025, 7, 3) 85000,
          Charge_init ''M001'' ''nk'' (2025, 7, 3) 20000]
         [((2025, 7, 5), 60000), ((2025, 8, 1), 7), ((2025, 7, 20), 30000)] (2025, 7, 31) ''oldest''
     = apply_payments_fifo
         [Charge_init ''M001'' ''rent'' (2025, 7, 3) 85000,
          Charge_init ''M001'' ''nk'' (2025, 7, 3) 20000]
         [((2025, 7, 31), 90000)] (2025, 7, 31) ''oldest''"
proof -
  let ?p = "[((2025 :: nat, 7 :: nat, 5 :: nat), 60000 :: int), ((2025, 8, 1), 7), ((2025, 7, 20), 30000)]"
  let ?p' = "[((2025 :: nat, 7 :: nat, 20 :: nat), 30000 :: int), ((2025, 7, 5), 60000), ((2025, 8, 1), 7)]"
  have h1: "mset ?p' = mset ?p" by simp
  have h2: "\<forall>(d, amt) \<in> set ?p. 0 < amt" by simp
  have s: "sum_list (map snd (eligible_payments ?p (2025, 7, 31))) = 90000"
    by (simp add: eligible_payments_def)
  let ?cs = "[Charge_init ''M001'' ''rent'' (2025, 7, 3) 85000,
        Charge_init ''M001'' ''nk'' (2025, 7, 3) 20000]"
  note T = payment_order_irrelevant [of ?p' ?p ?cs "(2025, 7, 31)" "''oldest''" aging_store
      "''M001''" "[''3000'']" "[''3010'']" "[''3020'']" "(2024, 8, 1)"]
  from T h1 have a: "apply_payments_fifo ?cs ?p' (2025, 7, 31) ''oldest''
      = apply_payments_fifo ?cs ?p (2025, 7, 31) ''oldest''" by blast
  from T h2 have "apply_payments_fifo ?cs ?p (2025, 7, 31) ''oldest''
      = apply_payments_fifo ?cs
          [((2025, 7, 31), sum_list (map snd (eligible_payments ?p (2025, 7, 31))))]
          (2025, 7, 31) ''oldest''" by blast
  then have b: "apply_payments_fifo ?cs ?p (2025, 7, 31) ''oldest''
      = apply_payments_fifo ?cs [((2025, 7, 31), 90000)] (2025, 7, 31) ''oldest''"
    by (simp only: s)
  from h2 have l: "list_all (\<lambda>(d, amt). 0 < amt) ?p" by (simp only: list_all_iff)
  show ?thesis by (rule conjI [OF h1 conjI [OF l conjI [OF a b]]])
qed

text \<open>
  C4 (as the code has it). The allocator takes the eligible payments in the order of the list
  it is given. Its result is nevertheless the one obtained by taking them in chronological
  order of their dates, ties in the order of the list. Each payment walks the sorted list of
  charges once: on a list whose open amounts are not negative, the charge at position \<open>i\<close>
  loses the minimum of its open amount and of what the payment has left after the charges
  before it, and nothing else changes; what the payment has left after the last charge is
  dropped.
\<close>

theorem chronological_equivalent:
  "apply_payments_fifo charges payments asof priority
     = foldl (\<lambda>cs (d, amt). walk amt cs) (eligible_charges charges asof priority)
         (sort_key fst (eligible_payments payments asof))
   \<and> ((\<forall>c \<in> set cs. 0 \<le> open_cents c) \<longrightarrow>
        length (walk amt cs) = length cs
        \<and> (\<forall>i < length cs. walk amt cs ! i = (cs ! i)\<lparr>open_cents := open_cents (cs ! i)
             - min (open_cents (cs ! i)) (max 0 (amt - sum_list (map open_cents (take i cs))))\<rparr>))"
proof (intro conjI impI allI)
  have "pooled (sort_key fst (eligible_payments payments asof)) = pooled (eligible_payments payments asof)"
    by (rule pooled_mset) simp
  then show "apply_payments_fifo charges payments asof priority
     = foldl (\<lambda>cs (d, amt). walk amt cs) (eligible_charges charges asof priority)
         (sort_key fst (eligible_payments payments asof))"
    by (simp add: apf_pooled foldl_walk)
next
  show "length (walk amt cs) = length cs" by (rule length_walk)
next
  fix i assume "\<forall>c \<in> set cs. 0 \<le> open_cents c" "i < length cs"
  then show "walk amt cs ! i = (cs ! i)\<lparr>open_cents := open_cents (cs ! i)
             - min (open_cents (cs ! i)) (max 0 (amt - sum_list (map open_cents (take i cs))))\<rparr>"
    by (rule walk_closed)
qed

theorem chronological_equivalent_witness:
  "list_all (\<lambda>c. 0 \<le> open_cents c)
     [Charge_init ''M001'' ''rent'' (2025, 7, 3) 85000,
      Charge_init ''M001'' ''nk'' (2025, 7, 3) 20000]
   \<and> map open_cents (walk 90000
       [Charge_init ''M001'' ''rent'' (2025, 7, 3) 85000,
        Charge_init ''M001'' ''nk'' (2025, 7, 3) 20000]) = [0, 15000]
   \<and> apply_payments_fifo
       [Charge_init ''M001'' ''rent'' (2025, 7, 3) 85000,
        Charge_init ''M001'' ''nk'' (2025, 7, 3) 20000]
       [((2025, 7, 5), 85000), ((2025, 7, 1), 20000)] (2025, 7, 31) ''oldest''
     = walk 85000 (walk 20000
         [Charge_init ''M001'' ''rent'' (2025, 7, 3) 85000,
          Charge_init ''M001'' ''nk'' (2025, 7, 3) 20000])"
proof -
  let ?cs = "[Charge_init ''M001'' ''rent'' (2025, 7, 3) 85000,
      Charge_init ''M001'' ''nk'' (2025, 7, 3) 20000]"
  let ?ps = "[((2025 :: nat, 7 :: nat, 5 :: nat), 85000 :: int), ((2025, 7, 1), 20000)]"
  have h: "\<forall>c \<in> set ?cs. 0 \<le> open_cents c" by (simp add: Charge_init_def)
  then have l: "list_all (\<lambda>c. 0 \<le> open_cents c) ?cs" by (simp only: list_all_iff)
  note T = chronological_equivalent [of ?cs ?ps "(2025, 7, 31)" "''oldest''" ?cs 90000]
  from T h have len: "length (walk 90000 ?cs) = length ?cs"
    and nth: "\<forall>i < length ?cs. walk 90000 ?cs ! i = (?cs ! i)\<lparr>open_cents := open_cents (?cs ! i)
             - min (open_cents (?cs ! i))
                 (max 0 (90000 - sum_list (map open_cents (take i ?cs))))\<rparr>"
    by blast+
  from nth have "open_cents (walk 90000 ?cs ! 0) = 0" "open_cents (walk 90000 ?cs ! 1) = 15000"
    by (simp_all add: Charge_init_def)
  with len have w: "map open_cents (walk 90000 ?cs) = [0, 15000]"
    by (simp add: list_eq_iff_nth_eq less_Suc_eq)
  from T have "apply_payments_fifo ?cs ?ps (2025, 7, 31) ''oldest''
     = foldl (\<lambda>cs (d, amt). walk amt cs) (eligible_charges ?cs (2025, 7, 31) ''oldest'')
         (sort_key fst (eligible_payments ?ps (2025, 7, 31)))"
    by blast
  also have "\<dots> = walk 85000 (walk 20000 ?cs)"
    by (simp add: eligible_charges_def eligible_payments_def sort_charges_def Charge_init_def)
  finally show ?thesis using l w by blast
qed

text \<open>
  Against C4 as it is stated: the order in which the payments are taken is not the
  chronological one. For a tenant with a
  rent payment on 2025-07-05 and an operating-cost payment on 2025-07-01,
  \<^verbatim>\<open>cmd_rent_aging\<close> builds the list of payments account group by account group, the later
  payment first, and the allocator pays 85000 before 20000: the charges after the first
  payment are open with 0 and 20000, where the chronological order gives 65000 and 20000.
\<close>

theorem payments_not_chronological:
  "aging_payments aging_store ''M001'' [''3000''] [''3010''] [''3020''] (2024, 8, 1) (2025, 7, 31)
     = [((2025, 7, 5), 85000), ((2025, 7, 1), 20000)]
   \<and> map (map open_cents) (fifo_states
         [Charge_init ''M001'' ''rent'' (2025, 7, 3) 85000,
          Charge_init ''M001'' ''nk'' (2025, 7, 3) 20000]
         (aging_payments aging_store ''M001'' [''3000''] [''3010''] [''3020'']
            (2024, 8, 1) (2025, 7, 31))
         (2025, 7, 31) ''oldest'')
       = [[85000, 20000], [0, 20000], [0, 0]]
   \<and> map (map open_cents) (fifo_states
         [Charge_init ''M001'' ''rent'' (2025, 7, 3) 85000,
          Charge_init ''M001'' ''nk'' (2025, 7, 3) 20000]
         (sort_key fst (aging_payments aging_store ''M001'' [''3000''] [''3010''] [''3020'']
            (2024, 8, 1) (2025, 7, 31)))
         (2025, 7, 31) ''oldest'')
       = [[85000, 20000], [65000, 20000], [0, 0]]"
  by code_simp

section \<open>Properties of the rule engine\<close>

subsection \<open>Inserting the splits\<close>

lemma insert_split_Inr:
  assumes "insert_split bid rn cx s = Inr cx'"
  shows "bank cx' = bank cx \<and> rules cx' = rules cx \<and> rule_parts cx' = rule_parts cx"
    and "\<exists>row. splits cx' = splits cx @ [row]
           \<and> s_bank_id row = bid \<and> s_amount_cents row = pending_amt s"
  using assms
  by (auto simp add: insert_split_def pending_amt_def split: prod.splits if_splits)

lemma insert_loop_tables:
  "insert_loop bid rn cx sti = (cx', res) \<Longrightarrow>
   bank cx' = bank cx \<and> rules cx' = rules cx \<and> rule_parts cx' = rule_parts cx"
proof (induction sti arbitrary: cx)
  case Nil
  then show ?case by simp
next
  case (Cons s sti)
  show ?case
  proof (cases "insert_split bid rn cx s")
    case (Inl x)
    with Cons.prems show ?thesis by simp
  next
    case (Inr cx1)
    with Cons.prems have "insert_loop bid rn cx1 sti = (cx', res)" by simp
    from Cons.IH [OF this] insert_split_Inr(1) [OF Inr] show ?thesis by simp
  qed
qed

text \<open>
  The rows that the loop has appended are those of a prefix of \<^verbatim>\<open>splits_to_insert\<close>: of the
  whole list when no exception was raised, of less otherwise.
\<close>

lemma insert_loop_splits:
  "insert_loop bid rn cx sti = (cx', res) \<Longrightarrow>
   \<exists>new. splits cx' = splits cx @ new
     \<and> (\<forall>s \<in> set new. s_bank_id s = bid)
     \<and> map s_amount_cents new = map pending_amt (take (length new) sti)
     \<and> (if res = None then length new = length sti else length new < length sti)"
proof (induction sti arbitrary: cx)
  case Nil
  then show ?case by auto
next
  case (Cons s sti)
  show ?case
  proof (cases "insert_split bid rn cx s")
    case (Inl x)
    with Cons.prems have "cx' = cx" "res = Some x" by simp_all
    then show ?thesis by simp
  next
    case (Inr cx1)
    from insert_split_Inr(2) [OF Inr]
    obtain row where row: "splits cx1 = splits cx @ [row]"
      "s_bank_id row = bid" "s_amount_cents row = pending_amt s"
      by blast
    from Inr Cons.prems have "insert_loop bid rn cx1 sti = (cx', res)" by simp
    from Cons.IH [OF this]
    obtain new where new: "splits cx' = splits cx1 @ new"
      "\<forall>s \<in> set new. s_bank_id s = bid"
      "map s_amount_cents new = map pending_amt (take (length new) sti)"
      "if res = None then length new = length sti else length new < length sti"
      by blast
    show ?thesis
    proof (intro exI conjI)
      show "splits cx' = splits cx @ (row # new)" using row(1) new(1) by simp
      show "\<forall>s \<in> set (row # new). s_bank_id s = bid" using row(2) new(2) by simp
      show "map s_amount_cents (row # new)
          = map pending_amt (take (length (row # new)) (s # sti))"
        using row(3) new(3) by simp
      show "if res = None then length (row # new) = length (s # sti)
          else length (row # new) < length (s # sti)"
        using new(4) by (simp split: if_splits)
    qed
  qed
qed

lemma insert_all_splits:
  assumes "insert_loop bid rn cx sti = (cx', None)"
  shows "\<exists>new. splits cx' = splits cx @ new
     \<and> (\<forall>s \<in> set new. s_bank_id s = bid)
     \<and> map s_amount_cents new = map pending_amt sti"
proof -
  from insert_loop_splits [OF assms]
  obtain new where new: "splits cx' = splits cx @ new"
    "\<forall>s \<in> set new. s_bank_id s = bid"
    "map s_amount_cents new = map pending_amt (take (length new) sti)"
    "length new = length sti"
    by auto
  from new(3,4) have "map s_amount_cents new = map pending_amt sti" by simp
  with new(1,2) show ?thesis by blast
qed

lemma insert_split_Inl:
  "insert_split bid rn cx s = Inl x \<Longrightarrow> x = OverflowError \<and> \<not> sqlite_integer (pending_amt s)"
  by (auto simp add: insert_split_def pending_amt_def split: prod.splits if_splits)

lemma insert_loop_raise:
  "insert_loop bid rn cx sti = (cx', Some x) \<Longrightarrow>
   \<exists>new. x = OverflowError \<and> length new < length sti
     \<and> \<not> sqlite_integer (pending_amt (sti ! length new))
     \<and> splits cx' = splits cx @ new
     \<and> map s_amount_cents new = map pending_amt (take (length new) sti)"
proof (induction sti arbitrary: cx)
  case Nil
  then show ?case by simp
next
  case (Cons s sti)
  show ?case
  proof (cases "insert_split bid rn cx s")
    case (Inl y)
    with Cons.prems have "cx' = cx" "y = x" by simp_all
    with insert_split_Inl [OF Inl] show ?thesis by simp
  next
    case (Inr cx1)
    from insert_split_Inr(2) [OF Inr]
    obtain row where row: "splits cx1 = splits cx @ [row]"
      "s_amount_cents row = pending_amt s"
      by blast
    from Inr Cons.prems have "insert_loop bid rn cx1 sti = (cx', Some x)" by simp
    from Cons.IH [OF this]
    obtain new where new: "x = OverflowError" "length new < length sti"
      "\<not> sqlite_integer (pending_amt (sti ! length new))"
      "splits cx' = splits cx1 @ new"
      "map s_amount_cents new = map pending_amt (take (length new) sti)"
      by blast
    show ?thesis
    proof (intro exI conjI)
      show "x = OverflowError" by (rule new(1))
      show "length (row # new) < length (s # sti)" using new(2) by simp
      show "\<not> sqlite_integer (pending_amt ((s # sti) ! length (row # new)))"
        using new(3) by simp
      show "splits cx' = splits cx @ (row # new)" using row(1) new(4) by simp
      show "map s_amount_cents (row # new)
          = map pending_amt (take (length (row # new)) (s # sti))"
        using row(2) new(5) by simp
    qed
  qed
qed

text \<open>The shape of a successful call, and of the other calls.\<close>

lemma apply_DoneE:
  assumes "apply_rule_to_bank re cx rid bid = (cx', Done n)"
  obtains b r sti where
    "find (\<lambda>b. b_id b = bid) (bank cx) = Some b"
    "find (\<lambda>r. r_id r = rid) (rules cx) = Some r"
    "match_rule re r b"
    "rule_parts_of cx rid \<noteq> []"
    "splits_for (b_amt b) (rule_parts_of cx rid) = Done sti"
    "sum_list (map pending_amt sti) = b_amt b"
    "insert_loop bid (r_name r) cx sti = (cx', None)"
    "n = length sti"
  using assms unfolding apply_rule_to_bank_def
  by (auto simp add: Let_def split: option.splits if_splits result.splits prod.splits)

lemma apply_Reject:
  "apply_rule_to_bank re cx rid bid = (cx', Reject e) \<Longrightarrow> cx' = cx"
  unfolding apply_rule_to_bank_def
  by (auto simp add: Let_def split: option.splits if_splits result.splits prod.splits)

lemma apply_Raise:
  assumes "apply_rule_to_bank re cx rid bid = (cx', Raise x)"
  shows "cx' = cx
    \<or> (\<exists>b r sti. find (\<lambda>b. b_id b = bid) (bank cx) = Some b
          \<and> find (\<lambda>r. r_id r = rid) (rules cx) = Some r
          \<and> splits_for (b_amt b) (rule_parts_of cx rid) = Done sti
          \<and> sum_list (map pending_amt sti) = b_amt b
          \<and> insert_loop bid (r_name r) cx sti = (cx', Some x))"
  using assms unfolding apply_rule_to_bank_def
  by (auto simp add: Let_def split: option.splits if_splits result.splits prod.splits)

lemma apply_shape:
  assumes "apply_rule_to_bank re cx rid bid = (cx', res)"
  shows "cx' = cx \<or> (\<exists>rn sti rr. insert_loop bid rn cx sti = (cx', rr))"
proof (cases res)
  case (Done n)
  with assms have "apply_rule_to_bank re cx rid bid = (cx', Done n)" by simp
  then obtain b r sti where "find (\<lambda>b. b_id b = bid) (bank cx) = Some b"
    and "find (\<lambda>r. r_id r = rid) (rules cx) = Some r"
    and "match_rule re r b"
    and "rule_parts_of cx rid \<noteq> []"
    and "splits_for (b_amt b) (rule_parts_of cx rid) = Done sti"
    and "sum_list (map pending_amt sti) = b_amt b"
    and "insert_loop bid (r_name r) cx sti = (cx', None)"
    and "n = length sti"
    by (rule apply_DoneE)
  then show ?thesis by blast
next
  case (Reject e)
  with assms have "cx' = cx" by (simp add: apply_Reject)
  then show ?thesis by simp
next
  case (Raise x)
  with assms have "apply_rule_to_bank re cx rid bid = (cx', Raise x)" by simp
  from apply_Raise [OF this] show ?thesis by blast
qed

text \<open>
  C1. Whenever the allocator reports success for a bank row and a rule, the rows it has
  appended to the table of splits belong to that bank row, are as many as it reports, and
  their amounts sum to the amount of the bank row exactly. Whenever the computed splits do
  not sum to the amount of the bank row, the call is rejected with the balance mismatch and
  returns the store as it was.
\<close>

theorem allocation_balanced:
  "(apply_rule_to_bank re cx rid bid = (cx', Done n) \<longrightarrow>
      (\<exists>b new. find (\<lambda>b. b_id b = bid) (bank cx) = Some b
         \<and> splits cx' = splits cx @ new \<and> length new = n
         \<and> (\<forall>s \<in> set new. s_bank_id s = bid)
         \<and> sum_list (map s_amount_cents new) = b_amt b))
   \<and> (find (\<lambda>b. b_id b = bid) (bank cx) = Some b
       \<and> find (\<lambda>r. r_id r = rid) (rules cx) = Some r
       \<and> match_rule re r b
       \<and> splits_for (b_amt b) (rule_parts_of cx rid) = Done sti
       \<and> rule_parts_of cx rid \<noteq> []
       \<and> sum_list (map pending_amt sti) \<noteq> b_amt b \<longrightarrow>
      apply_rule_to_bank re cx rid bid
        = (cx, Reject (BalanceMismatch (sum_list (map pending_amt sti)) (b_amt b))))"
proof (intro conjI impI)
  assume ok: "apply_rule_to_bank re cx rid bid = (cx', Done n)"
  then obtain b r sti where f: "find (\<lambda>b. b_id b = bid) (bank cx) = Some b"
    and "find (\<lambda>r. r_id r = rid) (rules cx) = Some r"
    and "match_rule re r b"
    and "rule_parts_of cx rid \<noteq> []"
    and "splits_for (b_amt b) (rule_parts_of cx rid) = Done sti"
    and tot: "sum_list (map pending_amt sti) = b_amt b"
    and cx': "insert_loop bid (r_name r) cx sti = (cx', None)"
    and n: "n = length sti"
    by (rule apply_DoneE)
  from insert_all_splits [OF cx']
  obtain new where new: "splits cx' = splits cx @ new" "\<forall>s \<in> set new. s_bank_id s = bid"
    "map s_amount_cents new = map pending_amt sti"
    by blast
  from new(3) have "length new = length sti" by (rule map_eq_imp_length_eq)
  with f tot n new
  show "\<exists>b new. find (\<lambda>b. b_id b = bid) (bank cx) = Some b
         \<and> splits cx' = splits cx @ new \<and> length new = n
         \<and> (\<forall>s \<in> set new. s_bank_id s = bid)
         \<and> sum_list (map s_amount_cents new) = b_amt b"
    by auto
next
  assume "find (\<lambda>b. b_id b = bid) (bank cx) = Some b
       \<and> find (\<lambda>r. r_id r = rid) (rules cx) = Some r
       \<and> match_rule re r b
       \<and> splits_for (b_amt b) (rule_parts_of cx rid) = Done sti
       \<and> rule_parts_of cx rid \<noteq> []
       \<and> sum_list (map pending_amt sti) \<noteq> b_amt b"
  then show "apply_rule_to_bank re cx rid bid
        = (cx, Reject (BalanceMismatch (sum_list (map pending_amt sti)) (b_amt b)))"
    by (simp add: apply_rule_to_bank_def Let_def)
qed

theorem allocation_balanced_witness:
  "apply_rule_to_bank no_regex demo_store 1 1
     = (fst (apply_rule_to_bank no_regex demo_store 1 1), Done 2)
   \<and> (\<exists>new. splits (fst (apply_rule_to_bank no_regex demo_store 1 1))
              = splits demo_store @ new
         \<and> length new = 2 \<and> sum_list (map s_amount_cents new) = 105000)
   \<and> splits_for 101 (rule_parts_of demo_store 3)
       = Done [(''3000'', None, 50, Some []), (''3010'', None, 50, Some [])]
   \<and> apply_rule_to_bank no_regex demo_store 3 3
       = (demo_store, Reject (BalanceMismatch 100 101))"
proof -
  let ?cx1 = "fst (apply_rule_to_bank no_regex demo_store 1 1)"
  have "snd (apply_rule_to_bank no_regex demo_store 1 1) = Done 2" by code_simp
  then have ok: "apply_rule_to_bank no_regex demo_store 1 1 = (?cx1, Done 2)"
    by (simp add: prod_eq_iff)
  have f1: "find (\<lambda>b. b_id b = 1) (bank demo_store)
      = Some \<lparr>b_id = 1, b_date = (2025, 7, 5), b_amt = 105000, b_desc = Some ''Miete Mueller''\<rparr>"
    by (simp add: demo_store_def)
  from allocation_balanced [of no_regex demo_store 1 1 ?cx1 2] ok
  obtain b new where "find (\<lambda>b. b_id b = 1) (bank demo_store) = Some b"
    "splits ?cx1 = splits demo_store @ new" "length new = 2"
    "sum_list (map s_amount_cents new) = b_amt b"
    by blast
  with f1 have a: "\<exists>new. splits ?cx1 = splits demo_store @ new
         \<and> length new = 2 \<and> sum_list (map s_amount_cents new) = 105000"
    by auto
  let ?b3 = "\<lparr>b_id = 3, b_date = (2025, 7, 7), b_amt = 101, b_desc = None\<rparr>"
  let ?r3 = "\<lparr>r_id = 3, r_name = ''Halb'', r_like = None, r_min_c = None,
                r_max_c = Some 1000, r_sign = ''in'', r_priority = 50, r_active = 1,
                r_regex = None\<rparr>"
  let ?sti = "[(''3000'', None, 50, Some []), (''3010'', None, 50, Some [])] :: pending list"
  have f3: "find (\<lambda>b. b_id b = 3) (bank demo_store) = Some ?b3"
    by (simp add: demo_store_def)
  have r3: "find (\<lambda>r. r_id r = 3) (rules demo_store) = Some ?r3"
    by (simp add: demo_store_def)
  have m3: "match_rule no_regex ?r3 ?b3"
    by (simp add: match_rule_def like_fails_def regex_fails_def sign_of_def)
  have s3: "splits_for 101 (rule_parts_of demo_store 3) = Done ?sti" by code_simp
  have p3: "rule_parts_of demo_store 3 \<noteq> []" by code_simp
  have t3: "sum_list (map pending_amt ?sti) = 100" by (simp add: pending_amt_def)
  from allocation_balanced [of no_regex demo_store 3 3 demo_store 0 ?b3 ?r3 ?sti] f3 r3 m3 s3 p3 t3
  have c: "apply_rule_to_bank no_regex demo_store 3 3
       = (demo_store, Reject (BalanceMismatch 100 101))"
    by simp
  show ?thesis by (rule conjI [OF ok conjI [OF a conjI [OF s3 c]]])
qed

lemma percent_limit_value: "percent_limit = Fin (879609311016893 / 8796093022208)"
  unfolding percent_limit_def by code_simp

subsection \<open>The batch\<close>

lemma apply_tables:
  assumes "apply_rule_to_bank re cx rid bid = (cx', res)"
  shows "bank cx' = bank cx \<and> rules cx' = rules cx \<and> rule_parts cx' = rule_parts cx"
proof -
  from apply_shape [OF assms] show ?thesis
  proof
    assume "cx' = cx"
    then show ?thesis by simp
  next
    assume "\<exists>rn sti rr. insert_loop bid rn cx sti = (cx', rr)"
    then obtain rn sti rr where "insert_loop bid rn cx sti = (cx', rr)" by blast
    then show ?thesis by (rule insert_loop_tables)
  qed
qed

lemma apply_splits_of:
  assumes "apply_rule_to_bank re cx rid bid = (cx', res)" and "bid' \<noteq> bid"
  shows "splits_of cx' bid' = splits_of cx bid'"
proof -
  from apply_shape [OF assms(1)] show ?thesis
  proof
    assume "cx' = cx"
    then show ?thesis by simp
  next
    assume "\<exists>rn sti rr. insert_loop bid rn cx sti = (cx', rr)"
    then obtain rn sti rr where "insert_loop bid rn cx sti = (cx', rr)" by blast
    from insert_loop_splits [OF this]
    obtain new where "splits cx' = splits cx @ new" "\<forall>s \<in> set new. s_bank_id s = bid"
      by blast
    with assms(2) show ?thesis by (simp add: splits_of_def)
  qed
qed

lemma try_rules_keeps:
  "try_rules re cx rs b = Inr (cx', ok) \<Longrightarrow>
   bank cx' = bank cx \<and> (\<forall>bid'. bid' \<noteq> b_id b \<longrightarrow> splits_of cx' bid' = splits_of cx bid')"
proof (induction rs arbitrary: cx)
  case Nil
  then show ?case by simp
next
  case (Cons r rs)
  show ?case
  proof (cases "match_rule re r b")
    case False
    with Cons show ?thesis by simp
  next
    case True
    obtain cx1 res where a: "apply_rule_to_bank re cx (r_id r) (b_id b) = (cx1, res)"
      by (cases "apply_rule_to_bank re cx (r_id r) (b_id b)")
    from apply_tables [OF a] have t: "bank cx1 = bank cx" by simp
    have s: "\<forall>bid'. bid' \<noteq> b_id b \<longrightarrow> splits_of cx1 bid' = splits_of cx bid'"
      using apply_splits_of [OF a] by blast
    show ?thesis
    proof (cases res)
      case (Done n)
      with Cons.prems True a have "cx' = cx1" by simp
      with t s show ?thesis by simp
    next
      case (Reject e)
      with Cons.prems True a have "try_rules re cx1 rs b = Inr (cx', ok)" by simp
      from Cons.IH [OF this] t s show ?thesis by simp
    next
      case (Raise x)
      with Cons.prems True a show ?thesis by simp
    qed
  qed
qed

lemma find_b_id:
  "distinct (map b_id bs) \<Longrightarrow> b \<in> set bs \<Longrightarrow> find (\<lambda>x. b_id x = b_id b) bs = Some b"
  by (induction bs) (auto simp add: rev_image_eqI)

lemma batch_loop_skip:
  "view_split_sum cx (b_id b) = Some (b_amt b) \<Longrightarrow>
   batch_loop re rs (b # rows) cx applied = batch_loop re rs rows cx applied"
  by simp

lemma batch_loop_try:
  assumes "view_split_sum cx (b_id b) \<noteq> Some (b_amt b)"
    and "batch_loop re rs (b # rows) cx applied = Inr (cx', n)"
  shows "\<exists>cx1 ok. try_rules re cx rs b = Inr (cx1, ok)
     \<and> batch_loop re rs rows cx1 (if ok then applied + 1 else applied) = Inr (cx', n)"
proof (cases "try_rules re cx rs b")
  case (Inl x)
  with assms show ?thesis by simp
next
  case (Inr p)
  obtain cx1 ok where "p = (cx1, ok)" by (cases p)
  with Inr assms show ?thesis by simp
qed

lemma batch_loop_keeps:
  assumes "distinct (map b_id (bank cx))" "b0 \<in> set (bank cx)"
    "split_sum cx (b_id b0) = b_amt b0" "set rows \<subseteq> set (bank cx)"
    "batch_loop re rs rows cx applied = Inr (cx', n)"
  shows "bank cx' = bank cx \<and> splits_of cx' (b_id b0) = splits_of cx (b_id b0)"
  using assms
proof (induction rows arbitrary: cx applied)
  case Nil
  then show ?case by simp
next
  case (Cons b rows)
  note d = Cons.prems(1) and b0 = Cons.prems(2) and bal = Cons.prems(3)
  from Cons.prems(4) have bin: "b \<in> set (bank cx)" and rows: "set rows \<subseteq> set (bank cx)"
    by simp_all
  show ?case
  proof (cases "view_split_sum cx (b_id b) = Some (b_amt b)")
    case True
    with Cons.prems(5) have "batch_loop re rs rows cx applied = Inr (cx', n)"
      by (simp only: batch_loop_skip)
    with d b0 bal rows show ?thesis by (rule Cons.IH)
  next
    case False
    have ne: "b_id b \<noteq> b_id b0"
    proof
      assume eq: "b_id b = b_id b0"
      have f0: "find (\<lambda>x. b_id x = b_id b0) (bank cx) = Some b0" using d b0 by (rule find_b_id)
      have f1: "find (\<lambda>x. b_id x = b_id b) (bank cx) = Some b" using d bin by (rule find_b_id)
      from f0 f1 eq have "b = b0" by simp
      moreover from f0 bal have "view_split_sum cx (b_id b0) = Some (b_amt b0)"
        by (simp add: view_split_sum_def)
      ultimately show False using False by simp
    qed
    from batch_loop_try [OF False Cons.prems(5)] obtain cx1 ok where
      t: "try_rules re cx rs b = Inr (cx1, ok)"
      and l: "batch_loop re rs rows cx1 (if ok then applied + 1 else applied) = Inr (cx', n)"
      by blast
    from try_rules_keeps [OF t] ne
    have k1: "bank cx1 = bank cx" and k2: "splits_of cx1 (b_id b0) = splits_of cx (b_id b0)"
      by simp_all
    from k2 bal have s: "split_sum cx1 (b_id b0) = b_amt b0" by (simp add: split_sum_def)
    from d k1 have d1: "distinct (map b_id (bank cx1))" by simp
    from b0 k1 have b1: "b0 \<in> set (bank cx1)" by simp
    from rows k1 have r1: "set rows \<subseteq> set (bank cx1)" by simp
    from d1 b1 s r1 l
    have "bank cx' = bank cx1 \<and> splits_of cx' (b_id b0) = splits_of cx1 (b_id b0)"
      by (rule Cons.IH)
    with k1 k2 show ?thesis by simp
  qed
qed

lemma batch_loop_bank:
  "batch_loop re rs rows cx applied = Inr (cx', n) \<Longrightarrow> bank cx' = bank cx"
proof (induction rows arbitrary: cx applied)
  case Nil
  then show ?case by simp
next
  case (Cons b rows)
  show ?case
  proof (cases "view_split_sum cx (b_id b) = Some (b_amt b)")
    case True
    with Cons.prems have "batch_loop re rs rows cx applied = Inr (cx', n)"
      by (simp only: batch_loop_skip)
    then show ?thesis by (rule Cons.IH)
  next
    case False
    from batch_loop_try [OF False Cons.prems] obtain cx1 ok where
      t: "try_rules re cx rs b = Inr (cx1, ok)"
      and l: "batch_loop re rs rows cx1 (if ok then applied + 1 else applied) = Inr (cx', n)"
      by blast
    from try_rules_keeps [OF t] have "bank cx1 = bank cx" by simp
    with Cons.IH [OF l] show ?thesis by simp
  qed
qed

lemma select_bank_rows_subset: "set (select_bank_rows cx args) \<subseteq> set (bank cx)"
  by (simp add: select_bank_rows_def subset_iff)

lemma cmd_apply_rules_bank: "bank (fst (cmd_apply_rules re cx args)) = bank cx"
proof (cases "batch_loop re (active_rules cx) (select_bank_rows cx args) cx 0")
  case (Inl x)
  then show ?thesis by (simp add: cmd_apply_rules_def)
next
  case (Inr p)
  obtain cx' n where p: "p = (cx', n)" by (cases p)
  from Inr p have l: "batch_loop re (active_rules cx) (select_bank_rows cx args) cx 0 = Inr (cx', n)"
    by simp
  from l have "bank cx' = bank cx" by (rule batch_loop_bank)
  with l show ?thesis by (simp add: cmd_apply_rules_def)
qed

lemma cmd_apply_rules_keeps:
  assumes "distinct (map b_id (bank cx))" "b \<in> set (bank cx)" "split_sum cx (b_id b) = b_amt b"
  shows "splits_of (fst (cmd_apply_rules re cx args)) (b_id b) = splits_of cx (b_id b)"
proof (cases "batch_loop re (active_rules cx) (select_bank_rows cx args) cx 0")
  case (Inl x)
  then show ?thesis by (simp add: cmd_apply_rules_def)
next
  case (Inr p)
  obtain cx' n where p: "p = (cx', n)" by (cases p)
  from Inr p have l: "batch_loop re (active_rules cx) (select_bank_rows cx args) cx 0 = Inr (cx', n)"
    by simp
  from assms select_bank_rows_subset l
  have "bank cx' = bank cx \<and> splits_of cx' (b_id b) = splits_of cx (b_id b)"
    by (rule batch_loop_keeps)
  with l show ?thesis by (simp add: cmd_apply_rules_def)
qed

text \<open>
  C5. With the bank ids distinct (they are the primary key), a bank row whose splits sum to
  its amount is skipped by the batch: its splits after the run are its splits before. Hence a
  second run inserts nothing for any bank row that is balanced after the first.
\<close>

theorem batch_skips_balanced:
  assumes "distinct (map b_id (bank cx))" and "b \<in> set (bank cx)"
  shows "(split_sum cx (b_id b) = b_amt b \<longrightarrow>
            splits_of (fst (cmd_apply_rules re cx args)) (b_id b) = splits_of cx (b_id b))
       \<and> (split_sum (fst (cmd_apply_rules re cx args)) (b_id b) = b_amt b \<longrightarrow>
            splits_of (fst (cmd_apply_rules re (fst (cmd_apply_rules re cx args)) args'))
              (b_id b)
            = splits_of (fst (cmd_apply_rules re cx args)) (b_id b))"
proof (intro conjI impI)
  assume "split_sum cx (b_id b) = b_amt b"
  with assms show "splits_of (fst (cmd_apply_rules re cx args)) (b_id b) = splits_of cx (b_id b)"
    by (rule cmd_apply_rules_keeps)
next
  let ?cx1 = "fst (cmd_apply_rules re cx args)"
  assume s: "split_sum ?cx1 (b_id b) = b_amt b"
  have bk: "bank ?cx1 = bank cx" by (rule cmd_apply_rules_bank)
  with assms have "distinct (map b_id (bank ?cx1))" "b \<in> set (bank ?cx1)" by simp_all
  then show "splits_of (fst (cmd_apply_rules re ?cx1 args')) (b_id b) = splits_of ?cx1 (b_id b)"
    using s by (rule cmd_apply_rules_keeps)
qed

theorem batch_skips_balanced_witness:
  "distinct (map b_id (bank (fst (cmd_apply_rules no_regex demo_store demo_args))))
   \<and> snd (cmd_apply_rules no_regex demo_store demo_args) = Inr 2
   \<and> split_sum (fst (cmd_apply_rules no_regex demo_store demo_args)) 1 = 105000
   \<and> map s_amount_cents (splits_of (fst (cmd_apply_rules no_regex demo_store demo_args)) 1)
       = [85000, 20000]
   \<and> splits_of (fst (cmd_apply_rules no_regex
         (fst (cmd_apply_rules no_regex demo_store demo_args)) demo_args)) 1
       = splits_of (fst (cmd_apply_rules no_regex demo_store demo_args)) 1"
proof -
  let ?cx1 = "fst (cmd_apply_rules no_regex demo_store demo_args)"
  let ?b = "\<lparr>b_id = 1, b_date = (2025, 7, 5), b_amt = 105000, b_desc = Some ''Miete Mueller''\<rparr>"
  have bk: "bank ?cx1 = bank demo_store" by (rule cmd_apply_rules_bank)
  have d: "distinct (map b_id (bank ?cx1))" unfolding bk by (simp add: demo_store_def)
  have m: "?b \<in> set (bank ?cx1)" unfolding bk by (simp add: demo_store_def)
  have n: "snd (cmd_apply_rules no_regex demo_store demo_args) = Inr 2" by code_simp
  have v: "map s_amount_cents (splits_of ?cx1 1) = [85000, 20000]" by code_simp
  then have s: "split_sum ?cx1 1 = 105000" by (simp add: split_sum_def)
  from batch_skips_balanced [OF d m, of no_regex demo_args demo_args] s
  have k: "splits_of (fst (cmd_apply_rules no_regex ?cx1 demo_args)) 1 = splits_of ?cx1 1"
    by simp
  show ?thesis by (rule conjI [OF d conjI [OF n conjI [OF s conjI [OF v k]]]])
qed

subsection \<open>The three loops over the parts\<close>

lemma fixed_loop_Inr:
  "fixed_loop bank_amt parts rem acc = Inr (rem', sti) \<Longrightarrow>
   sti = acc @ map (fixed_pending bank_amt) [p \<leftarrow> parts. p_kind p = ''fixed'']"
proof (induction parts arbitrary: rem acc)
  case Nil
  then show ?case by simp
next
  case (Cons p parts)
  show ?case
  proof (cases "p_kind p = ''fixed''")
    case False
    with Cons show ?thesis by simp
  next
    case True
    with Cons.prems obtain v where v: "val_c p = Some v"
      by (cases "val_c p") simp_all
    with True Cons.prems
    have "fixed_loop bank_amt parts (rem - fixed_amount bank_amt v)
            (acc @ [(p_account p, p_tenant_id p, fixed_amount bank_amt v, note_t p)])
          = Inr (rem', sti)"
      by (simp add: Let_def)
    from Cons.IH [OF this] True v show ?thesis by (simp add: fixed_pending_def)
  qed
qed

lemma fixed_loop_total:
  "\<forall>p \<in> set parts. p_kind p = ''fixed'' \<longrightarrow> val_c p \<noteq> None \<Longrightarrow>
   \<exists>rem' sti. fixed_loop bank_amt parts rem acc = Inr (rem', sti)"
proof (induction parts arbitrary: rem acc)
  case Nil
  then show ?case by simp
next
  case (Cons p parts)
  then have rest: "\<forall>p \<in> set parts. p_kind p = ''fixed'' \<longrightarrow> val_c p \<noteq> None" by simp
  show ?case
  proof (cases "p_kind p = ''fixed''")
    case False
    with Cons.IH [OF rest] show ?thesis by simp
  next
    case True
    with Cons.prems obtain v where v: "val_c p = Some v" by auto
    with True Cons.IH [OF rest] show ?thesis by (simp add: Let_def)
  qed
qed

lemma percent_scan_total:
  "\<forall>p \<in> set parts. p_kind p = ''percent'' \<longrightarrow> val_p p \<noteq> None \<Longrightarrow>
   \<exists>pps. percent_scan parts s acc
     = Inr (foldl fl_add s (map (\<lambda>p. the (val_p p)) [p \<leftarrow> parts. p_kind p = ''percent'']), pps)"
proof (induction parts arbitrary: s acc)
  case Nil
  then show ?case by simp
next
  case (Cons p parts)
  then have rest: "\<forall>p \<in> set parts. p_kind p = ''percent'' \<longrightarrow> val_p p \<noteq> None" by simp
  show ?case
  proof (cases "p_kind p = ''percent''")
    case False
    with Cons.IH [OF rest] show ?thesis by simp
  next
    case True
    with Cons.prems obtain v where v: "val_p p = Some v" by auto
    with True Cons.IH [OF rest] show ?thesis by simp
  qed
qed

lemma percent_loop_Inr:
  "percent_loop bank_amt pps rem acc = Inr (rem', sti) \<Longrightarrow> \<exists>more. sti = acc @ more"
proof (induction pps arbitrary: rem acc)
  case Nil
  then show ?case by simp
next
  case (Cons pp pps)
  obtain account tenant pct nt where pp: "pp = (account, tenant, pct, nt)"
    by (cases pp)
  from Cons.prems pp obtain cents where
    "percent_loop bank_amt pps (rem - cents) (acc @ [(account, tenant, cents, nt)])
       = Inr (rem', sti)"
    by (auto split: sum.splits)
  from Cons.IH [OF this] obtain more where
    "sti = (acc @ [(account, tenant, cents, nt)]) @ more" by blast
  then have "sti = acc @ ((account, tenant, cents, nt) # more)" by simp
  then show ?case by (rule exI)
qed

lemma splits_for_overflow:
  assumes "\<forall>p \<in> set parts. (p_kind p = ''fixed'' \<longrightarrow> val_c p \<noteq> None)
             \<and> (p_kind p = ''percent'' \<longrightarrow> val_p p \<noteq> None)"
    and "fl_gt (percent_sum_of parts) percent_limit"
  shows "splits_for bank_amt parts = Reject (PercentOverflow (percent_sum_of parts))"
proof -
  from assms(1) have "\<forall>p \<in> set parts. p_kind p = ''fixed'' \<longrightarrow> val_c p \<noteq> None" by simp
  from fixed_loop_total [OF this] obtain rem' sti where
    f: "fixed_loop bank_amt parts bank_amt [] = Inr (rem', sti)" by blast
  from assms(1) have "\<forall>p \<in> set parts. p_kind p = ''percent'' \<longrightarrow> val_p p \<noteq> None" by simp
  from percent_scan_total [OF this] obtain pps where
    p: "percent_scan parts (Fin 0) [] = Inr (percent_sum_of parts, pps)"
    unfolding percent_sum_of_def by blast
  from f p assms(2) show ?thesis by (simp add: splits_for_def)
qed

lemma splits_for_fixed:
  assumes "splits_for bank_amt parts = Done sti"
  shows "take (length [p \<leftarrow> parts. p_kind p = ''fixed'']) sti
    = map (fixed_pending bank_amt) [p \<leftarrow> parts. p_kind p = ''fixed'']"
proof -
  from assms obtain rem1 sti1 where f: "fixed_loop bank_amt parts bank_amt [] = Inr (rem1, sti1)"
    by (cases "fixed_loop bank_amt parts bank_amt []") (auto simp add: splits_for_def)
  from fixed_loop_Inr [OF f]
  have s1: "sti1 = map (fixed_pending bank_amt) [p \<leftarrow> parts. p_kind p = ''fixed'']" by simp
  from assms f obtain ps pps where sc: "percent_scan parts (Fin 0) [] = Inr (ps, pps)"
    by (cases "percent_scan parts (Fin 0) []") (auto simp add: splits_for_def)
  from assms f sc obtain rem2 sti2 where
    l: "percent_loop bank_amt pps rem1 sti1 = Inr (rem2, sti2)"
    by (cases "percent_loop bank_amt pps rem1 sti1")
       (auto simp add: splits_for_def split: if_splits)
  from percent_loop_Inr [OF l] obtain more where m: "sti2 = sti1 @ more" by blast
  from assms f sc l have "\<exists>last. sti = sti2 @ last"
    by (auto simp add: splits_for_def split: if_splits list.splits)
  with m obtain rest where "sti = sti1 @ rest" by auto
  with s1 show ?thesis by simp
qed

text \<open>
  C6 (as the code has it). For a bank row and a matching rule all of whose fixed parts carry
  a value in cents and all of whose percent parts carry a percentage, if the floating-point
  sum of the percentages is greater than 100.000001 (as for a single part of 100.01), the
  allocator rejects with the percent overflow and that sum, and returns the store as it
  was. This holds for every percentage, also one on which the amount of the part could not be
  computed: the check comes before the amounts of the percent parts. The amounts of the fixed
  parts have been computed by then.
\<close>

theorem percent_overflow_rejected:
  assumes "find (\<lambda>b. b_id b = bid) (bank cx) = Some b"
    and "find (\<lambda>r. r_id r = rid) (rules cx) = Some r"
    and "match_rule re r b"
    and "\<forall>p \<in> set (rule_parts_of cx rid).
           (p_kind p = ''fixed'' \<longrightarrow> val_c p \<noteq> None)
           \<and> (p_kind p = ''percent'' \<longrightarrow> val_p p \<noteq> None)"
    and "fl_gt (percent_sum_of (rule_parts_of cx rid)) percent_limit"
  shows "apply_rule_to_bank re cx rid bid
    = (cx, Reject (PercentOverflow (percent_sum_of (rule_parts_of cx rid))))"
proof -
  have ne: "rule_parts_of cx rid \<noteq> []"
  proof
    assume "rule_parts_of cx rid = []"
    with assms(5) show False by (simp add: percent_sum_of_def percent_limit_value)
  qed
  from assms(4,5)
  have "splits_for (b_amt b) (rule_parts_of cx rid)
      = Reject (PercentOverflow (percent_sum_of (rule_parts_of cx rid)))"
    by (rule splits_for_overflow)
  with assms(1-3) ne show ?thesis by (simp add: apply_rule_to_bank_def)
qed

theorem percent_overflow_rejected_witness:
  "find (\<lambda>b. b_id b = 1) (bank overflow_store)
     = Some \<lparr>b_id = 1, b_date = (2025, 7, 5), b_amt = 10000, b_desc = Some ''Miete''\<rparr>
   \<and> match_rule no_regex
       \<lparr>r_id = 2, r_name = ''B'', r_like = None, r_min_c = None, r_max_c = None,
        r_sign = ''any'', r_priority = 100, r_active = 1, r_regex = None\<rparr>
       \<lparr>b_id = 1, b_date = (2025, 7, 5), b_amt = 10000, b_desc = Some ''Miete''\<rparr>
   \<and> percent_sum_of (rule_parts_of overflow_store 2) = fl_round (10001 / 100)
   \<and> fl_gt (fl_round (10001 / 100)) percent_limit
   \<and> apply_rule_to_bank no_regex overflow_store 2 1
       = (overflow_store, Reject (PercentOverflow (fl_round (10001 / 100))))"
proof -
  let ?b = "\<lparr>b_id = 1, b_date = (2025, 7, 5), b_amt = 10000, b_desc = Some ''Miete''\<rparr>"
  let ?r = "\<lparr>r_id = 2, r_name = ''B'', r_like = None, r_min_c = None, r_max_c = None,
        r_sign = ''any'', r_priority = 100, r_active = 1, r_regex = None\<rparr>"
  have h1: "find (\<lambda>b. b_id b = 1) (bank overflow_store) = Some ?b"
    by (simp add: overflow_store_def)
  have h2: "find (\<lambda>r. r_id r = 2) (rules overflow_store) = Some ?r"
    by (simp add: overflow_store_def)
  have h3: "match_rule no_regex ?r ?b"
    by (simp add: match_rule_def like_fails_def regex_fails_def)
  have h4: "\<forall>p \<in> set (rule_parts_of overflow_store 2).
           (p_kind p = ''fixed'' \<longrightarrow> val_c p \<noteq> None)
           \<and> (p_kind p = ''percent'' \<longrightarrow> val_p p \<noteq> None)"
    by (simp add: rule_parts_of_def overflow_store_def)
  have s: "percent_sum_of (rule_parts_of overflow_store 2) = fl_round (10001 / 100)"
    by code_simp
  have g: "fl_gt (fl_round (10001 / 100)) percent_limit"
    by code_simp
  from g s have h5: "fl_gt (percent_sum_of (rule_parts_of overflow_store 2)) percent_limit"
    by simp
  from percent_overflow_rejected [OF h1 h2 h3 h4 h5] s
  have a: "apply_rule_to_bank no_regex overflow_store 2 1
       = (overflow_store, Reject (PercentOverflow (fl_round (10001 / 100))))" by simp
  show ?thesis by (rule conjI [OF h1 conjI [OF h3 conjI [OF s conjI [OF g a]]]])
qed

text \<open>
  Against C6 as it is stated: a rule whose only percent part is 100.01 is not always rejected
  with the percent overflow:
  with a fixed part that has no value the rejection names the fixed part. And where the
  rejection is the percent overflow, the split of a fixed part of 5000 has been computed
  before.
\<close>

theorem percent_overflow_counterexample:
  "fl_gt (percent_sum_of (rule_parts_of overflow_store 1)) percent_limit
   \<and> apply_rule_to_bank no_regex overflow_store 1 1 = (overflow_store, Reject FixedNoValue)
   \<and> fixed_loop 10000 (rule_parts_of overflow_store 2) 10000 []
       = Inr (5000, [(''3000'', None, 5000, Some [])])"
  by code_simp

text \<open>
  C7 (as the code has it). On a bank amount that is not zero, the amount of a fixed part is
  the absolute value of its stored value with the sign of the bank amount; on a bank amount
  of zero it is the stored value unchanged. A fixed part of 5000 on a bank amount of -12000
  gives -5000. On success the first inserted splits are those of the fixed parts, with
  these amounts.
\<close>

theorem fixed_part_sign:
  "(0 < b_amt b \<longrightarrow> fixed_amount (b_amt b) v = \<bar>v\<bar>)
   \<and> (b_amt b < 0 \<longrightarrow> fixed_amount (b_amt b) v = - \<bar>v\<bar>)
   \<and> (b_amt b = 0 \<longrightarrow> fixed_amount (b_amt b) v = v)
   \<and> fixed_amount (- 12000) 5000 = - 5000
   \<and> (apply_rule_to_bank re cx rid bid = (cx', Done n)
        \<and> find (\<lambda>b. b_id b = bid) (bank cx) = Some b \<longrightarrow>
       take (length [p \<leftarrow> rule_parts_of cx rid. p_kind p = ''fixed''])
         (map s_amount_cents (drop (length (splits cx)) (splits cx')))
       = map (\<lambda>p. fixed_amount (b_amt b) (the (val_c p)))
           [p \<leftarrow> rule_parts_of cx rid. p_kind p = ''fixed''])"
proof (intro conjI impI)
  assume a: "apply_rule_to_bank re cx rid bid = (cx', Done n)
        \<and> find (\<lambda>b. b_id b = bid) (bank cx) = Some b"
  then have "apply_rule_to_bank re cx rid bid = (cx', Done n)" by simp
  then obtain b' r sti where f: "find (\<lambda>b. b_id b = bid) (bank cx) = Some b'"
    and "find (\<lambda>r. r_id r = rid) (rules cx) = Some r"
    and "match_rule re r b'"
    and "rule_parts_of cx rid \<noteq> []"
    and sf: "splits_for (b_amt b') (rule_parts_of cx rid) = Done sti"
    and "sum_list (map pending_amt sti) = b_amt b'"
    and cx': "insert_loop bid (r_name r) cx sti = (cx', None)"
    and "n = length sti"
    by (rule apply_DoneE)
  from a f have b: "b' = b" by simp
  let ?fixed = "[p \<leftarrow> rule_parts_of cx rid. p_kind p = ''fixed'']"
  from insert_all_splits [OF cx']
  obtain new where new: "splits cx' = splits cx @ new"
    "map s_amount_cents new = map pending_amt sti"
    by blast
  from new have "map s_amount_cents (drop (length (splits cx)) (splits cx')) = map pending_amt sti"
    by simp
  then have "take (length ?fixed) (map s_amount_cents (drop (length (splits cx)) (splits cx')))
      = map pending_amt (take (length ?fixed) sti)"
    by (simp add: take_map)
  also from splits_for_fixed [OF sf] b
  have "take (length ?fixed) sti = map (fixed_pending (b_amt b)) ?fixed" by simp
  also have "map pending_amt (map (fixed_pending (b_amt b)) ?fixed)
      = map (\<lambda>p. fixed_amount (b_amt b) (the (val_c p))) ?fixed"
    by (simp add: pending_amt_def fixed_pending_def)
  finally show "take (length ?fixed)
         (map s_amount_cents (drop (length (splits cx)) (splits cx')))
       = map (\<lambda>p. fixed_amount (b_amt b) (the (val_c p))) ?fixed" .
qed (simp_all add: fixed_amount_def)

theorem fixed_part_sign_witness:
  "apply_rule_to_bank no_regex demo_store 2 2
     = (fst (apply_rule_to_bank no_regex demo_store 2 2), Done 2)
   \<and> find (\<lambda>b. b_id b = 2) (bank demo_store)
       = Some \<lparr>b_id = 2, b_date = (2025, 7, 6), b_amt = - 12000, b_desc = Some ''Wasser''\<rparr>
   \<and> map val_c [p \<leftarrow> rule_parts_of demo_store 2. p_kind p = ''fixed''] = [Some 5000]
   \<and> take 1 (map s_amount_cents (splits (fst (apply_rule_to_bank no_regex demo_store 2 2))))
       = [- 5000]"
proof -
  let ?cx1 = "fst (apply_rule_to_bank no_regex demo_store 2 2)"
  let ?b = "\<lparr>b_id = 2, b_date = (2025, 7, 6), b_amt = - 12000, b_desc = Some ''Wasser''\<rparr>"
  have "snd (apply_rule_to_bank no_regex demo_store 2 2) = Done 2" by code_simp
  then have ok: "apply_rule_to_bank no_regex demo_store 2 2 = (?cx1, Done 2)"
    by (simp add: prod_eq_iff)
  have f: "find (\<lambda>b. b_id b = 2) (bank demo_store) = Some ?b"
    by (simp add: demo_store_def)
  have p: "[p \<leftarrow> rule_parts_of demo_store 2. p_kind p = ''fixed'']
      = [\<lparr>p_id = 3, p_rule_id = 2, p_account = ''4010'', p_tenant_id = None,
          p_kind = ''fixed'', val_c = Some 5000, val_p = None, note_t = Some []\<rparr>]"
    by (simp add: rule_parts_of_def demo_store_def)
  then have v: "map val_c [p \<leftarrow> rule_parts_of demo_store 2. p_kind p = ''fixed''] = [Some 5000]"
    by simp
  have e: "splits demo_store = []" by (simp add: demo_store_def)
  from fixed_part_sign [of ?b 5000 no_regex demo_store 2 2 ?cx1 2] ok f
  have "take (length [p \<leftarrow> rule_parts_of demo_store 2. p_kind p = ''fixed''])
         (map s_amount_cents (drop (length (splits demo_store)) (splits ?cx1)))
       = map (\<lambda>p. fixed_amount (b_amt ?b) (the (val_c p)))
           [p \<leftarrow> rule_parts_of demo_store 2. p_kind p = ''fixed'']"
    by blast
  then have t: "take 1 (map s_amount_cents (splits ?cx1)) = [- 5000]"
    by (simp add: p e fixed_amount_def)
  show ?thesis by (rule conjI [OF ok conjI [OF f conjI [OF v t]]])
qed

text \<open>
  Against C7 as it is stated: on a bank row of amount zero, a fixed part of -5000 with a
  remainder part is applied with
  success, and its split is -5000: the sign is the one stored with the part.
\<close>

theorem fixed_part_sign_counterexample:
  "find (\<lambda>b. b_id b = 1) (bank zero_store)
     = Some \<lparr>b_id = 1, b_date = (2025, 7, 5), b_amt = 0, b_desc = Some ''Storno''\<rparr>
   \<and> map val_c [p \<leftarrow> rule_parts_of zero_store 1. p_kind p = ''fixed''] = [Some (- 5000)]
   \<and> snd (apply_rule_to_bank no_regex zero_store 1 1) = Done 2
   \<and> map s_amount_cents (splits (fst (apply_rule_to_bank no_regex zero_store 1 1)))
       = [- 5000, 5000]"
  by code_simp

text \<open>
  C2. Whenever the allocator returns a rejection (no parts, a fixed part without value, a
  percent part without value, percent overflow, several remainder parts, balance mismatch, or
  a bank row or rule that is missing or does not match), the store is the one it was called
  with: no split has been inserted. The same holds when \<^verbatim>\<open>round\<close> raises. The one exception
  that leaves rows behind is the \<^verbatim>\<open>OverflowError\<close> of an \<^verbatim>\<open>INSERT\<close>, which is no returned
  failure: the splits were computed and balanced, an amount among them is no SQLite integer,
  and the rows of the splits before it are pending until the caller rolls back.
\<close>

theorem failed_allocation_writes_nothing:
  "(apply_rule_to_bank re cx rid bid = (cx', Reject e) \<longrightarrow> cx' = cx)
   \<and> (apply_rule_to_bank re cx rid bid = (cx', Raise x) \<longrightarrow>
        cx' = cx
        \<or> (\<exists>b sti new.
              find (\<lambda>b. b_id b = bid) (bank cx) = Some b
              \<and> splits_for (b_amt b) (rule_parts_of cx rid) = Done sti
              \<and> sum_list (map pending_amt sti) = b_amt b
              \<and> x = OverflowError
              \<and> length new < length sti
              \<and> \<not> sqlite_integer (pending_amt (sti ! length new))
              \<and> splits cx' = splits cx @ new
              \<and> map s_amount_cents new = map pending_amt (take (length new) sti)))"
proof (intro conjI impI)
  assume "apply_rule_to_bank re cx rid bid = (cx', Reject e)"
  then show "cx' = cx" by (rule apply_Reject)
next
  assume "apply_rule_to_bank re cx rid bid = (cx', Raise x)"
  from apply_Raise [OF this]
  show "cx' = cx
        \<or> (\<exists>b sti new.
              find (\<lambda>b. b_id b = bid) (bank cx) = Some b
              \<and> splits_for (b_amt b) (rule_parts_of cx rid) = Done sti
              \<and> sum_list (map pending_amt sti) = b_amt b
              \<and> x = OverflowError
              \<and> length new < length sti
              \<and> \<not> sqlite_integer (pending_amt (sti ! length new))
              \<and> splits cx' = splits cx @ new
              \<and> map s_amount_cents new = map pending_amt (take (length new) sti))"
  proof
    assume "cx' = cx"
    then show ?thesis by simp
  next
    assume "\<exists>b r sti. find (\<lambda>b. b_id b = bid) (bank cx) = Some b
          \<and> find (\<lambda>r. r_id r = rid) (rules cx) = Some r
          \<and> splits_for (b_amt b) (rule_parts_of cx rid) = Done sti
          \<and> sum_list (map pending_amt sti) = b_amt b
          \<and> insert_loop bid (r_name r) cx sti = (cx', Some x)"
    then obtain b r sti where f: "find (\<lambda>b. b_id b = bid) (bank cx) = Some b"
      and "find (\<lambda>r. r_id r = rid) (rules cx) = Some r"
      and sf: "splits_for (b_amt b) (rule_parts_of cx rid) = Done sti"
      and tot: "sum_list (map pending_amt sti) = b_amt b"
      and l: "insert_loop bid (r_name r) cx sti = (cx', Some x)"
      by (elim exE conjE)
    from insert_loop_raise [OF l] obtain new where
      "x = OverflowError" "length new < length sti"
      "\<not> sqlite_integer (pending_amt (sti ! length new))"
      "splits cx' = splits cx @ new"
      "map s_amount_cents new = map pending_amt (take (length new) sti)"
      by blast
    with f sf tot show ?thesis by blast
  qed
qed

theorem failed_allocation_writes_nothing_witness:
  "apply_rule_to_bank no_regex demo_store 3 3 = (demo_store, Reject (BalanceMismatch 100 101))
   \<and> apply_rule_to_bank no_regex demo_store 1 2 = (demo_store, Reject RuleNoMatch)
   \<and> apply_rule_to_bank no_regex overflow_store 1 1 = (overflow_store, Reject FixedNoValue)
   \<and> splits_for 9223372036854775807 (rule_parts_of bind_store 1)
       = Done [(''3000'', None, 1, Some []), (''3010'', None, 9223372036854775808, Some []),
               (''3020'', None, - 2, Some [])]
   \<and> snd (apply_rule_to_bank no_regex bind_store 1 1) = Raise OverflowError
   \<and> map s_amount_cents (splits (fst (apply_rule_to_bank no_regex bind_store 1 1))) = [1]"
proof -
  have d: "splits_for 9223372036854775807 (rule_parts_of bind_store 1)
       = Done [(''3000'', None, 1, Some []), (''3010'', None, 9223372036854775808, Some []),
               (''3020'', None, - 2, Some [])]"
    by code_simp
  have e: "snd (apply_rule_to_bank no_regex bind_store 1 1) = Raise OverflowError"
    by code_simp
  have g: "map s_amount_cents (splits (fst (apply_rule_to_bank no_regex bind_store 1 1))) = [1]"
    by code_simp
  have "snd (apply_rule_to_bank no_regex demo_store 3 3) = Reject (BalanceMismatch 100 101)"
    by code_simp
  then have "apply_rule_to_bank no_regex demo_store 3 3
      = (fst (apply_rule_to_bank no_regex demo_store 3 3), Reject (BalanceMismatch 100 101))"
    by (simp add: prod_eq_iff)
  with failed_allocation_writes_nothing [of no_regex demo_store 3 3 "fst (apply_rule_to_bank no_regex demo_store 3 3)"
      "BalanceMismatch 100 101"]
  have a: "apply_rule_to_bank no_regex demo_store 3 3
      = (demo_store, Reject (BalanceMismatch 100 101))" by simp
  have "snd (apply_rule_to_bank no_regex demo_store 1 2) = Reject RuleNoMatch"
    by code_simp
  then have "apply_rule_to_bank no_regex demo_store 1 2
      = (fst (apply_rule_to_bank no_regex demo_store 1 2), Reject RuleNoMatch)"
    by (simp add: prod_eq_iff)
  with failed_allocation_writes_nothing [of no_regex demo_store 1 2 "fst (apply_rule_to_bank no_regex demo_store 1 2)"
      RuleNoMatch]
  have b: "apply_rule_to_bank no_regex demo_store 1 2 = (demo_store, Reject RuleNoMatch)"
    by simp
  have "snd (apply_rule_to_bank no_regex overflow_store 1 1) = Reject FixedNoValue"
    by code_simp
  then have "apply_rule_to_bank no_regex overflow_store 1 1
      = (fst (apply_rule_to_bank no_regex overflow_store 1 1), Reject FixedNoValue)"
    by (simp add: prod_eq_iff)
  with failed_allocation_writes_nothing [of no_regex overflow_store 1 1
      "fst (apply_rule_to_bank no_regex overflow_store 1 1)" FixedNoValue]
  have c: "apply_rule_to_bank no_regex overflow_store 1 1
      = (overflow_store, Reject FixedNoValue)" by simp
  show ?thesis by (rule conjI [OF a conjI [OF b conjI [OF c conjI [OF d conjI [OF e g]]]]])
qed

end
